theory Spec2Isabelle
  imports
    Main
    "HOL-Library.Multiset"
    "HOL-Library.Sublist"
    "HOL-Library.Char_ord"
    "HOL-Library.List_Lexorder"
    "HOL-Library.Log_Nat"
begin

section \<open>The registry checker: data model\<close>

text \<open>
  The Go struct \<open>CheckResult\<close> of \<open>main.go\<close>. \<open>Time\<close> is a \<open>time.Duration\<close>
  (nanoseconds), \<open>StatusCode\<close> a Go \<open>int\<close>; no arithmetic is done on either, so both are
  integers here. A Go string is a sequence of bytes, as \<open>string\<close> is.
\<close>

record CheckResult =
  Host :: string
  Available :: bool
  Time :: int
  StatusCode :: int
  IsTimeout :: bool

text \<open>
  The zero value of the struct with \<open>Host\<close> set: \<open>result := CheckResult{Host: host}\<close>.
\<close>

definition new_result :: "string \<Rightarrow> CheckResult" where
  "new_result host =
     \<lparr>Host = host, Available = False, Time = 0, StatusCode = 0, IsTimeout = False\<rparr>"

subsection \<open>What \<open>client.Get\<close> hands back\<close>

text \<open>
  \<open>resp, err := client.Get(url)\<close>. The worker looks at \<open>err\<close> first and at \<open>resp\<close> only when
  \<open>err\<close> is nil, so the call has two outcomes for it. Of a non-nil error the worker reads
  two things: \<open>os.IsTimeout(err)\<close> and the text \<open>err.Error()\<close>. What made the request fail is
  not visible to the worker; it is kept in the model (\<open>cause\<close>) so that statements about
  the cause can be written down.
\<close>

datatype failure_cause =
  DeadlineExceeded | DNSFailure | ConnectionRefused | TLSHandshakeFailure | OtherFailure

record probe_error =
  cause :: failure_cause
  os_IsTimeout :: bool
  Error_text :: string

datatype probe_reply =
  Failed probe_error
| Responded int int  \<comment> \<open>\<open>resp.StatusCode\<close>, and \<open>time.Since(start)\<close> read after the response\<close>

subsection \<open>\<open>strings.Contains\<close> and \<open>strings.HasPrefix\<close>\<close>

definition HasPrefix :: "string \<Rightarrow> string \<Rightarrow> bool" where
  "HasPrefix s pre = (take (length pre) s = pre)"

fun Contains :: "string \<Rightarrow> string \<Rightarrow> bool" where
  "Contains [] sub = (sub = [])"
| "Contains (c # cs) sub = (HasPrefix (c # cs) sub \<or> Contains cs sub)"

section \<open>The prober: one iteration of the worker's loop\<close>

text \<open>
  The body of \<open>for host := range jobs\<close> in \<open>worker\<close>, from \<open>result := CheckResult{Host: host}\<close>
  to the value sent on \<open>results\<close>, as a function of the host and of what \<open>client.Get\<close>
  returned.
\<close>

definition check_host :: "string \<Rightarrow> probe_reply \<Rightarrow> CheckResult" where
  "check_host host reply =
     (let result = new_result host in
      case reply of
        Failed err \<Rightarrow>
          (let result = result\<lparr>Available := False\<rparr> in
           if os_IsTimeout err \<or> Contains (Error_text err) ''timeout''
           then result\<lparr>IsTimeout := True\<rparr>
           else result)
      | Responded code elapsed \<Rightarrow>
          result\<lparr>StatusCode := code,
                 Time := elapsed,
                 Available := ((200 \<le> code \<and> code < 400) \<or> code = 401)\<rparr>)"

subsection \<open>The report's cells\<close>

text \<open>
  The columns that \<open>main\<close> prints for one row. \<open>fmt.Sprintf("%d", n)\<close> is the decimal
  numeral of \<open>n\<close>. The seconds column is \<open>fmt.Sprintf("%.2fs", result.Time.Seconds())\<close>:
  the two-decimal rendering of a floating-point number, taken as a parameter \<open>secs\<close>,
  followed by the letter s. The literal for a timeout is the UTF-8 text of the two
  Chinese characters in the source.
\<close>

fun digits :: "nat \<Rightarrow> string" where
  "digits n = (if n < 10 then [char_of (48 + n)] else digits (n div 10) @ [char_of (48 + n mod 10)])"

declare digits.simps [simp del]

definition Sprintf_d :: "int \<Rightarrow> string" where
  "Sprintf_d n = (if n < 0 then CHR ''-'' # digits (nat (- n)) else digits (nat n))"

definition timeout_literal :: string where
  "timeout_literal = [CHR 0xE8, CHR 0xB6, CHR 0x85, CHR 0xE6, CHR 0x97, CHR 0xB6]"

definition status_cell :: "CheckResult \<Rightarrow> string" where
  "status_cell result =
     (if \<not> Available result then [CHR 0xE2, CHR 0x9C, CHR 0x97] else [CHR 0xE2, CHR 0x9C, CHR 0x93])"

definition statusCode_cell :: "CheckResult \<Rightarrow> string" where
  "statusCode_cell result = (if StatusCode result = 0 then ''-'' else Sprintf_d (StatusCode result))"

definition timeStr_cell :: "(int \<Rightarrow> string) \<Rightarrow> CheckResult \<Rightarrow> string" where
  "timeStr_cell secs result = (if \<not> IsTimeout result then secs (Time result) @ ''s'' else timeout_literal)"

section \<open>Reading the list of hosts\<close>

text \<open>
  \<open>strings.TrimSpace\<close> removes leading and trailing white space as Unicode defines it
  (\<open>unicode.IsSpace\<close>). On the bytes of a Go string these are the six ASCII characters
  tab, line feed, vertical tab, form feed, carriage return and space, and the UTF-8
  encodings of U+0085, U+00A0, U+1680, U+2000 to U+200A, U+2028, U+2029, U+202F, U+205F
  and U+3000. No encoding is a prefix of another, so the rune at the start of a string
  is white space exactly when one of the encodings is a prefix of the string, and the
  same holds at the end with suffixes.
\<close>

definition space_runes :: "string list" where
  "space_runes =
     [[CHR 0x09], [CHR 0x0A], [CHR 0x0B], [CHR 0x0C], [CHR 0x0D], [CHR 0x20],
      [CHR 0xC2, CHR 0x85], [CHR 0xC2, CHR 0xA0],
      [CHR 0xE1, CHR 0x9A, CHR 0x80],
      [CHR 0xE2, CHR 0x80, CHR 0x80], [CHR 0xE2, CHR 0x80, CHR 0x81],
      [CHR 0xE2, CHR 0x80, CHR 0x82], [CHR 0xE2, CHR 0x80, CHR 0x83],
      [CHR 0xE2, CHR 0x80, CHR 0x84], [CHR 0xE2, CHR 0x80, CHR 0x85],
      [CHR 0xE2, CHR 0x80, CHR 0x86], [CHR 0xE2, CHR 0x80, CHR 0x87],
      [CHR 0xE2, CHR 0x80, CHR 0x88], [CHR 0xE2, CHR 0x80, CHR 0x89],
      [CHR 0xE2, CHR 0x80, CHR 0x8A],
      [CHR 0xE2, CHR 0x80, CHR 0xA8], [CHR 0xE2, CHR 0x80, CHR 0xA9],
      [CHR 0xE2, CHR 0x80, CHR 0xAF],
      [CHR 0xE2, CHR 0x81, CHR 0x9F],
      [CHR 0xE3, CHR 0x80, CHR 0x80]]"

definition space_width :: "string list \<Rightarrow> string \<Rightarrow> nat" where
  "space_width runes s = (case filter (\<lambda>r. HasPrefix s r) runes of [] \<Rightarrow> 0 | r # _ \<Rightarrow> length r)"

function trim_left :: "string list \<Rightarrow> string \<Rightarrow> string" where
  "trim_left runes s =
     (if s = [] \<or> space_width runes s = 0 then s else trim_left runes (drop (space_width runes s) s))"
  by pat_completeness auto
termination
  by (relation "measure (\<lambda>(runes, s). length s)") auto

declare trim_left.simps [simp del]

definition TrimLeftSpace :: "string \<Rightarrow> string" where
  "TrimLeftSpace s = trim_left space_runes s"

definition TrimRightSpace :: "string \<Rightarrow> string" where
  "TrimRightSpace s = rev (trim_left (map rev space_runes) (rev s))"

definition TrimSpace :: "string \<Rightarrow> string" where
  "TrimSpace s = TrimRightSpace (TrimLeftSpace s)"

text \<open>
  The loop of \<open>main\<close> over \<open>scanner.Scan()\<close>, on the lines the scanner delivers;
  \<open>hosts = append(hosts, host)\<close> adds at the end. After the loop \<open>main\<close> gives up when
  \<open>scanner.Err()\<close> is not nil (\<open>scan_failed\<close>), then when \<open>len(hosts) == 0\<close>.
\<close>

datatype run_error = ReadError | EmptyInput

definition scan_hosts :: "string list \<Rightarrow> string list" where
  "scan_hosts lines =
     fold (\<lambda>line hosts.
             let host = TrimSpace line in
             if host \<noteq> [] \<and> \<not> HasPrefix host ''#'' then hosts @ [host] else hosts)
          lines []"

definition load_hosts :: "string list \<Rightarrow> bool \<Rightarrow> run_error + string list" where
  "load_hosts lines scan_failed =
     (let hosts = scan_hosts lines in
      if scan_failed then Inl ReadError
      else if length hosts = 0 then Inl EmptyInput
      else Inr hosts)"


text \<open>
  The two kinds of line that the specification says are ignored: a line that is empty
  after trimming, and a line whose first character after the leading white space is \<open>#\<close>.
\<close>

definition blank_line :: "string \<Rightarrow> bool" where
  "blank_line l = (TrimSpace l = [])"

definition comment_line :: "string \<Rightarrow> bool" where
  "comment_line l = (case TrimLeftSpace l of [] \<Rightarrow> False | c # _ \<Rightarrow> c = CHR ''#'')"

section \<open>The report\<close>

text \<open>
  After the results are collected, \<open>main\<close> chooses what to display: with \<open>-l\<close> a loop
  appends every result that is \<open>Available\<close> and not \<open>IsTimeout\<close>, otherwise the display is
  the list of all results.
\<close>

definition select_display :: "bool \<Rightarrow> CheckResult list \<Rightarrow> CheckResult list" where
  "select_display listSuccess allResults =
     (if listSuccess
      then fold (\<lambda>result displayResults.
                   if Available result \<and> \<not> IsTimeout result then displayResults @ [result]
                   else displayResults)
                allResults []
      else allResults)"

text \<open>
  \<open>sort.Slice(displayResults, less)\<close> is the Go library's: it rearranges the slice so that
  no element is \<open>less\<close> than one before it, and it does not promise to keep equal
  elements in their order. Its code is not part of this program, so it is a relation
  here: \<open>sort_Slice lt xs ys\<close> says that \<open>ys\<close> is a possible content of the slice after
  sorting \<open>xs\<close>. The comparison that \<open>main\<close> passes is \<open>host_less\<close>, Go's \<open><\<close> on strings:
  bytes compared as unsigned numbers, a proper prefix first.
\<close>

definition sort_Slice :: "('a \<Rightarrow> 'a \<Rightarrow> bool) \<Rightarrow> 'a list \<Rightarrow> 'a list \<Rightarrow> bool" where
  "sort_Slice lt xs ys \<longleftrightarrow> mset ys = mset xs \<and> sorted_wrt (\<lambda>a b. \<not> lt b a) ys"

definition host_less :: "CheckResult \<Rightarrow> CheckResult \<Rightarrow> bool" where
  "host_less a b = (Host a < Host b)"

definition report_rows :: "bool \<Rightarrow> CheckResult list \<Rightarrow> CheckResult list \<Rightarrow> bool" where
  "report_rows listSuccess allResults rows =
     sort_Slice host_less (select_display listSuccess allResults) rows"

text \<open>The summary line: \<open>len(allResults)\<close> and the loop that counts the successes.\<close>

definition totalCount :: "CheckResult list \<Rightarrow> nat" where
  "totalCount allResults = length allResults"

definition successCount :: "CheckResult list \<Rightarrow> nat" where
  "successCount allResults =
     fold (\<lambda>result n. if Available result \<and> \<not> IsTimeout result then n + 1 else n) allResults 0"

definition succeeded :: "CheckResult \<Rightarrow> bool" where
  "succeeded r = (Available r \<and> \<not> IsTimeout r)"

section \<open>The worker pool\<close>

text \<open>
  From \<open>jobs := make(chan string, len(hosts))\<close> to the end of the loop
  \<open>for result := range results\<close>, \<open>main\<close> runs together with \<open>numWorkers\<close> goroutines
  \<open>worker\<close> and with the goroutine that waits for them and closes \<open>results\<close>. The model is
  an interleaving of their steps. Each step is one operation on a channel or on the
  \<open>WaitGroup\<close>, which Go makes atomic; what a goroutine does alone between two such
  operations belongs to the step before.

  Where \<open>main\<close> stands: in the loop that starts the workers with its counter \<open>i\<close>, in the
  loop that sends the hosts with those still to send, before \<open>go func() {...}()\<close>, in the
  loop that collects the results, or past it.
\<close>

datatype main_pc =
  Spawning int
| Sending "string list"
| Start_closer
| Collecting
| Finished

text \<open>
  Where a worker stands: at \<open>for host := range jobs\<close>; inside \<open>client.Get\<close> for the host it
  took; at \<open>results <- result\<close> with the result it made; or returned, the deferred
  \<open>wg.Done()\<close> done.
\<close>

datatype worker =
  Ranging
| Probing string
| Sending_result CheckResult
| Returned

text \<open>The goroutine \<open>go func() { wg.Wait(); close(results) }()\<close>: at \<open>wg.Wait()\<close>, at
  \<open>close(results)\<close>, or finished.\<close>

datatype closer = Waiting | Closing | Gone

text \<open>
  The shared state. A buffered channel is its queue and whether it is closed; both
  channels have capacity \<open>len(hosts)\<close>. \<open>progress\<close> records the arguments of the calls of
  \<open>showProgress\<close>, in order. \<open>panicked\<close> is set by an operation on which Go panics: a send
  on a closed channel, closing a closed channel, a negative \<open>WaitGroup\<close> counter.
\<close>

record pool =
  jobs :: "string list"
  jobs_closed :: bool
  results :: "CheckResult list"
  results_closed :: bool
  wg :: int
  workers :: "worker list"
  closer :: "closer option"
  main_pc :: main_pc
  allResults :: "CheckResult list"
  resultCount :: nat
  progress :: "(nat \<times> nat) list"
  panicked :: bool

definition start :: pool where
  "start =
     \<lparr>jobs = [], jobs_closed = False, results = [], results_closed = False, wg = 0,
      workers = [], closer = None, main_pc = Spawning 0, allResults = [], resultCount = 0,
      progress = [], panicked = False\<rparr>"

text \<open>
  What can happen next: a step of \<open>main\<close>, a step of worker \<open>i\<close> at a channel, the return of
  \<open>client.Get\<close> in worker \<open>i\<close> with some reply, a step of the closing goroutine. A schedule
  is a list of these; which one comes next, and what the network replies, is not
  decided by the program.
\<close>

datatype action = Main_step | Worker_step nat | Get_returns nat probe_reply | Closer_step

text \<open>
  A step of \<open>main\<close>. \<open>wg.Add(1); go worker(...)\<close> is one step, since nothing reads the
  counter before the closing goroutine exists. A send on \<open>jobs\<close> blocks (\<open>None\<close>) while the
  buffer is full. Receiving from \<open>results\<close> blocks while the buffer is empty and the
  channel open, and ends the loop when it is empty and closed.
\<close>

definition main_step :: "int \<Rightarrow> string list \<Rightarrow> pool \<Rightarrow> pool option" where
  "main_step numWorkers hosts s =
     (case main_pc s of
        Spawning i \<Rightarrow>
          if i < numWorkers
          then Some (s\<lparr>wg := wg s + 1, workers := workers s @ [Ranging], main_pc := Spawning (i + 1)\<rparr>)
          else Some (s\<lparr>main_pc := Sending hosts\<rparr>)
      | Sending (host # rest) \<Rightarrow>
          if jobs_closed s then Some (s\<lparr>panicked := True\<rparr>)
          else if length (jobs s) < length hosts
          then Some (s\<lparr>jobs := jobs s @ [host], main_pc := Sending rest\<rparr>)
          else None
      | Sending [] \<Rightarrow>
          if jobs_closed s then Some (s\<lparr>panicked := True\<rparr>)
          else Some (s\<lparr>jobs_closed := True, main_pc := Start_closer\<rparr>)
      | Start_closer \<Rightarrow> Some (s\<lparr>closer := Some Waiting, main_pc := Collecting\<rparr>)
      | Collecting \<Rightarrow>
          (case results s of
             result # rest \<Rightarrow>
               Some (s\<lparr>results := rest,
                       resultCount := resultCount s + 1,
                       allResults := allResults s @ [result],
                       progress := progress s @ [(resultCount s + 1, length hosts)]\<rparr>)
           | [] \<Rightarrow> if results_closed s then Some (s\<lparr>main_pc := Finished\<rparr>) else None)
      | Finished \<Rightarrow> None)"

text \<open>
  A step of worker \<open>i\<close>: \<open>range jobs\<close> takes the oldest host, blocks while \<open>jobs\<close> is empty
  and open, and ends the loop when it is empty and closed, upon which the worker
  returns and \<open>wg.Done()\<close> runs; \<open>results <- result\<close> appends, blocks while the buffer is
  full, and panics when \<open>results\<close> is closed.
\<close>

definition worker_step :: "string list \<Rightarrow> nat \<Rightarrow> pool \<Rightarrow> pool option" where
  "worker_step hosts i s =
     (if i < length (workers s) then
        (case workers s ! i of
           Ranging \<Rightarrow>
             (case jobs s of
                host # rest \<Rightarrow> Some (s\<lparr>jobs := rest, workers := (workers s)[i := Probing host]\<rparr>)
              | [] \<Rightarrow>
                  if jobs_closed s
                  then (if wg s - 1 < 0 then Some (s\<lparr>panicked := True\<rparr>)
                        else Some (s\<lparr>wg := wg s - 1, workers := (workers s)[i := Returned]\<rparr>))
                  else None)
         | Probing host \<Rightarrow> None
         | Sending_result result \<Rightarrow>
             if results_closed s then Some (s\<lparr>panicked := True\<rparr>)
             else if length (results s) < length hosts
             then Some (s\<lparr>results := results s @ [result], workers := (workers s)[i := Ranging]\<rparr>)
             else None
         | Returned \<Rightarrow> None)
      else None)"

text \<open>\<open>client.Get\<close> returns in worker \<open>i\<close>; the rest of the loop body up to the send is
  \<open>check_host\<close>.\<close>

definition get_returns :: "nat \<Rightarrow> probe_reply \<Rightarrow> pool \<Rightarrow> pool option" where
  "get_returns i reply s =
     (if i < length (workers s) then
        (case workers s ! i of
           Probing host \<Rightarrow> Some (s\<lparr>workers := (workers s)[i := Sending_result (check_host host reply)]\<rparr>)
         | _ \<Rightarrow> None)
      else None)"

definition closer_step :: "pool \<Rightarrow> pool option" where
  "closer_step s =
     (case closer s of
        None \<Rightarrow> None
      | Some Waiting \<Rightarrow> if wg s = 0 then Some (s\<lparr>closer := Some Closing\<rparr>) else None
      | Some Closing \<Rightarrow>
          if results_closed s then Some (s\<lparr>panicked := True\<rparr>)
          else Some (s\<lparr>results_closed := True, closer := Some Gone\<rparr>)
      | Some Gone \<Rightarrow> None)"

text \<open>One step of the whole program; nothing runs after a panic.\<close>

definition exec :: "int \<Rightarrow> string list \<Rightarrow> action \<Rightarrow> pool \<Rightarrow> pool option" where
  "exec numWorkers hosts a s =
     (if panicked s then None
      else case a of
        Main_step \<Rightarrow> main_step numWorkers hosts s
      | Worker_step i \<Rightarrow> worker_step hosts i s
      | Get_returns i reply \<Rightarrow> get_returns i reply s
      | Closer_step \<Rightarrow> closer_step s)"

text \<open>A schedule run from a state: \<open>None\<close> when it asks for a step that cannot be taken.\<close>

fun run :: "int \<Rightarrow> string list \<Rightarrow> action list \<Rightarrow> pool \<Rightarrow> pool option" where
  "run numWorkers hosts [] s = Some s"
| "run numWorkers hosts (a # as) s =
     (case exec numWorkers hosts a s of
        None \<Rightarrow> None
      | Some s' \<Rightarrow> run numWorkers hosts as s')"

subsection \<open>What holds in every state of the pool\<close>

text \<open>
  Every host is in exactly one place: still to be sent, in \<open>jobs\<close>, with a worker, in
  \<open>results\<close>, or in \<open>allResults\<close>. The other parts of \<open>pool_inv\<close> tie the channels, the
  \<open>WaitGroup\<close> counter and the closing goroutine to where \<open>main\<close> stands.
\<close>

fun in_flight :: "worker \<Rightarrow> string multiset" where
  "in_flight (Probing host) = {#host#}"
| "in_flight (Sending_result result) = {#Host result#}"
| "in_flight Ranging = {#}"
| "in_flight Returned = {#}"

fun alive :: "worker \<Rightarrow> nat" where
  "alive Returned = 0"
| "alive w = 1"

fun pending :: "string list \<Rightarrow> main_pc \<Rightarrow> string multiset" where
  "pending hosts (Spawning i) = mset hosts"
| "pending hosts (Sending rest) = mset rest"
| "pending hosts pc = {#}"

fun sends_done :: "main_pc \<Rightarrow> bool" where
  "sends_done (Spawning i) = False"
| "sends_done (Sending rest) = False"
| "sends_done pc = True"

fun closer_started :: "main_pc \<Rightarrow> bool" where
  "closer_started Collecting = True"
| "closer_started Finished = True"
| "closer_started pc = False"

fun spawned :: "int \<Rightarrow> main_pc \<Rightarrow> int" where
  "spawned numWorkers (Spawning i) = i"
| "spawned numWorkers pc = numWorkers"

fun spawn_range :: "int \<Rightarrow> main_pc \<Rightarrow> bool" where
  "spawn_range numWorkers (Spawning i) = (0 \<le> i \<and> i \<le> max 0 numWorkers)"
| "spawn_range numWorkers pc = True"

definition pool_inv :: "int \<Rightarrow> string list \<Rightarrow> pool \<Rightarrow> bool" where
  "pool_inv numWorkers hosts s \<longleftrightarrow>
     \<not> panicked s
     \<and> pending hosts (main_pc s) + mset (jobs s) + sum_list (map in_flight (workers s))
         + mset (map Host (results s)) + mset (map Host (allResults s)) = mset hosts
     \<and> wg s = int (sum_list (map alive (workers s)))
     \<and> jobs_closed s = sends_done (main_pc s)
     \<and> (closer s \<noteq> None) = closer_started (main_pc s)
     \<and> results_closed s = (closer s = Some Gone)
     \<and> (closer s = Some Closing \<or> closer s = Some Gone \<longrightarrow> wg s = 0)
     \<and> (Returned \<in> set (workers s) \<longrightarrow> jobs_closed s \<and> jobs s = [])
     \<and> (main_pc s = Finished \<longrightarrow> results_closed s \<and> results s = [])
     \<and> spawn_range numWorkers (main_pc s)
     \<and> length (workers s) = nat (spawned numWorkers (main_pc s))
     \<and> (workers s = [] \<longrightarrow> results s = [] \<and> allResults s = [])"

text \<open>
  A number that every step makes smaller: a host counts 5 before it is sent, 4 in
  \<open>jobs\<close>, 3 during \<open>client.Get\<close>, 2 before the result is sent, 1 in \<open>results\<close>; each goroutine
  counts the steps of its own that remain.
\<close>

fun main_pot :: "int \<Rightarrow> nat \<Rightarrow> main_pc \<Rightarrow> nat" where
  "main_pot numWorkers k (Spawning i) = 2 * nat (numWorkers - i) + 5 * k + 6"
| "main_pot numWorkers k (Sending rest) = 5 * length rest + 5"
| "main_pot numWorkers k Start_closer = 4"
| "main_pot numWorkers k Collecting = 1"
| "main_pot numWorkers k Finished = 0"

fun worker_pot :: "worker \<Rightarrow> nat" where
  "worker_pot Ranging = 1"
| "worker_pot (Probing host) = 4"
| "worker_pot (Sending_result result) = 3"
| "worker_pot Returned = 0"

fun closer_pot :: "closer option \<Rightarrow> nat" where
  "closer_pot None = 0"
| "closer_pot (Some Waiting) = 2"
| "closer_pot (Some Closing) = 1"
| "closer_pot (Some Gone) = 0"

definition potential :: "int \<Rightarrow> string list \<Rightarrow> pool \<Rightarrow> nat" where
  "potential numWorkers hosts s =
     main_pot numWorkers (length hosts) (main_pc s) + 4 * length (jobs s)
     + sum_list (map worker_pot (workers s)) + length (results s) + closer_pot (closer s)
     + (if panicked s then 0 else 1)"

text \<open>Every result in the pool was made by the prober, and \<open>showProgress\<close> has been called
  once per collected result, with the running count and \<open>len(hosts)\<close>.\<close>

definition prober_made :: "CheckResult \<Rightarrow> bool" where
  "prober_made r \<longleftrightarrow> (\<exists>reply. r = check_host (Host r) reply)"

fun worker_made :: "worker \<Rightarrow> bool" where
  "worker_made (Sending_result result) = prober_made result"
| "worker_made w = True"

definition outcomes_inv :: "pool \<Rightarrow> bool" where
  "outcomes_inv s \<longleftrightarrow>
     list_all prober_made (results s) \<and> list_all prober_made (allResults s)
     \<and> list_all worker_made (workers s)"

definition log_inv :: "string list \<Rightarrow> pool \<Rightarrow> bool" where
  "log_inv hosts s \<longleftrightarrow>
     resultCount s = length (allResults s)
     \<and> progress s = map (\<lambda>c. (c, length hosts)) [1..<Suc (length (allResults s))]"

text \<open>
  The program up to the report: the hosts are read, and only when that succeeds does
  the pool exist and run.
\<close>

definition checker ::
  "string list \<Rightarrow> bool \<Rightarrow> int \<Rightarrow> action list \<Rightarrow> run_error + pool option" where
  "checker lines scan_failed numWorkers sched =
     (case load_hosts lines scan_failed of
        Inl e \<Rightarrow> Inl e
      | Inr hosts \<Rightarrow> Inr (run numWorkers hosts sched start))"

section \<open>The progress line\<close>

text \<open>
  \<open>showProgress\<close> computes with \<open>float64\<close>. A finite binary64 number is a rational, and
  every operation used here (conversion from \<open>int\<close>, division, multiplication) gives the
  exact result rounded to the nearest binary64 number, ties to the even significand.
  \<open>r64\<close> is that rounding for a significand of 53 bits; it leaves the exponent unbounded,
  which agrees with binary64 for magnitudes from \<open>2 powi -1022\<close> up to \<open>2 powi 1024\<close>.
  The values below are quotients and products of counts of hosts, far inside.

  \<open>rne\<close> rounds to the nearest integer, ties to even; \<open>expo x\<close> is the exponent \<open>e\<close> with
  \<open>2 powi e \<le> x < 2 powi (e + 1)\<close>, computed from the bit lengths of numerator and
  denominator.
\<close>

definition rne :: "rat \<Rightarrow> int" where
  "rne x =
     (let f = \<lfloor>x\<rfloor>; d = x - of_int f in
      if d < 1 / 2 then f else if 1 / 2 < d then f + 1 else if even f then f else f + 1)"

definition expo :: "rat \<Rightarrow> int" where
  "expo x =
     (case quotient_of x of
        (p, q) \<Rightarrow> let d = bitlen p - bitlen q in if 2 powi d \<le> x then d else d - 1)"

definition r64 :: "rat \<Rightarrow> rat" where
  "r64 x =
     (if x = 0 then 0
      else of_int (rne (x / 2 powi (expo \<bar>x\<bar> - 52))) * 2 powi (expo \<bar>x\<bar> - 52))"

text \<open>The conversions \<open>float64(n)\<close> of an \<open>int\<close> and \<open>int(x)\<close> of a \<open>float64\<close>, which drops the
  fraction.\<close>

definition float64 :: "int \<Rightarrow> rat" where
  "float64 n = r64 (of_int n)"

definition int_of_float64 :: "rat \<Rightarrow> int" where
  "int_of_float64 x = (if 0 \<le> x then \<lfloor>x\<rfloor> else \<lceil>x\<rceil>)"

text \<open>
  \<open>fmt.Sprintf("%.1f", v)\<close>: the decimal with one digit after the point nearest to the
  exact value of \<open>v\<close>, ties to the even digit. \<open>strings.Repeat\<close> panics on a negative
  count.
\<close>

definition Sprintf_1f :: "rat \<Rightarrow> string" where
  "Sprintf_1f v =
     (let t = rne (\<bar>v\<bar> * 10) in
      (if v < 0 then ''-'' else []) @ digits (nat (t div 10)) @ ''.'' @ digits (nat (t mod 10)))"

definition Repeat :: "string \<Rightarrow> int \<Rightarrow> string option" where
  "Repeat s n = (if n < 0 then None else Some (concat (replicate (nat n) s)))"

text \<open>
  Division of two binary64 numbers. With a divisor of zero the quotient is an infinity
  or not a number, which is no rational: \<open>None\<close>.
\<close>

definition fdiv :: "rat \<Rightarrow> rat \<Rightarrow> rat option" where
  "fdiv a b = (if b = 0 then None else Some (r64 (a / b)))"

text \<open>
  \<open>percentage := float64(current) / float64(total)\<close>, and the number that is printed,
  \<open>percentage*100\<close>. \<open>showProgress\<close> gives the line written. It gives \<open>None\<close> where no line
  is defined: when \<open>strings.Repeat\<close> panics on a negative count, and when \<open>total\<close> is 0,
  where \<open>int(...)\<close> of an infinity or of a NaN depends on the platform and \<open>strings.Repeat\<close>
  panics on the counts it gives for an infinity. The Chinese label and the two block
  characters of the bar are their UTF-8 bytes.
\<close>

definition percentage :: "int \<Rightarrow> int \<Rightarrow> rat option" where
  "percentage current tot = fdiv (float64 current) (float64 tot)"

definition percent_shown :: "int \<Rightarrow> int \<Rightarrow> rat option" where
  "percent_shown current tot = map_option (\<lambda>p. r64 (p * 100)) (percentage current tot)"

definition showProgress :: "int \<Rightarrow> int \<Rightarrow> string option" where
  "showProgress current tot =
     (case percentage current tot of
        None \<Rightarrow> None
      | Some p \<Rightarrow>
          let width = 40;
              filled = int_of_float64 (r64 (float64 width * p))
          in case (Repeat [CHR 0xE2, CHR 0x96, CHR 0x88] filled,
                   Repeat [CHR 0xE2, CHR 0x96, CHR 0x91] (width - filled)) of
               (Some done, Some todo) \<Rightarrow>
                 Some ([CHR 0x0D, CHR 0xE6, CHR 0xA3, CHR 0x80, CHR 0xE6, CHR 0xB5, CHR 0x8B,
                        CHR 0xE8, CHR 0xBF, CHR 0x9B, CHR 0xE5, CHR 0xBA, CHR 0xA6]
                       @ '': ['' @ done @ todo @ ''] '' @ Sprintf_d current @ ''/''
                       @ Sprintf_d tot @ '' ('' @ Sprintf_1f (r64 (p * 100)) @ ''%)'')
             | _ \<Rightarrow> None)"

section \<open>Properties of the prober\<close>

lemma HasPrefix_iff_prefix: "HasPrefix s pre \<longleftrightarrow> prefix pre s"
proof
  assume "HasPrefix s pre"
  then have "s = pre @ drop (length pre) s"
    by (metis HasPrefix_def append_take_drop_id)
  then show "prefix pre s"
    by (metis prefixI)
next
  assume "prefix pre s"
  then show "HasPrefix s pre"
    by (auto simp: HasPrefix_def prefix_def)
qed

lemma Contains_iff_sublist: "Contains s sub \<longleftrightarrow> sublist sub s"
  by (induction s) (auto simp: HasPrefix_iff_prefix sublist_Cons_right)

lemma digits_nonempty: "digits n \<noteq> []"
  by (subst digits.simps) simp

text \<open>
  C2. When \<open>client.Get\<close> returns a response, \<open>Available\<close> is true exactly when the status
  code is in [200,400) or is 401; when it returns an error, \<open>StatusCode\<close> is 0 and
  \<open>Available\<close> is false.
\<close>

theorem classification:
  "Available (check_host host (Responded code elapsed)) = ((200 \<le> code \<and> code < 400) \<or> code = 401)
   \<and> StatusCode (check_host host (Responded code elapsed)) = code
   \<and> StatusCode (check_host host (Failed err)) = 0
   \<and> Available (check_host host (Failed err)) = False"
  by (simp add: check_host_def new_result_def Let_def)

text \<open>
  A failed probe gives \<open>Available = False\<close>, \<open>StatusCode = 0\<close>, \<open>Time\<close> unset (zero); \<open>IsTimeout\<close>
  is set when the error reports itself as a timeout (\<open>os.IsTimeout\<close>) or when its text
  contains the seven letters "timeout" somewhere.
\<close>

lemma failed_probe_outcome:
  "check_host host (Failed err) =
     \<lparr>Host = host, Available = False, Time = 0, StatusCode = 0,
      IsTimeout = (os_IsTimeout err \<or> sublist ''timeout'' (Error_text err))\<rparr>"
  by (simp add: check_host_def new_result_def Let_def Contains_iff_sublist)

text \<open>
  C3. A lookup that finds no such host is not a timeout, and \<open>os.IsTimeout\<close> says so. But
  the text of the error that \<open>client.Get\<close> returns quotes the URL, and with it the name of
  the host: for the host \<open>timeout.example.com\<close> the worker sets \<open>IsTimeout\<close>, and the
  report shows the timeout literal, while for \<open>mirror.example.com\<close> with the same failure
  it does not.
\<close>

theorem dns_failure_flagged_as_timeout:
  \<open>check_host ''timeout.example.com''
     (Failed \<lparr>cause = DNSFailure, os_IsTimeout = False,
              Error_text = ''Get "https://timeout.example.com/v2/": dial tcp: lookup timeout.example.com: no such host''\<rparr>)
     = \<lparr>Host = ''timeout.example.com'', Available = False, Time = 0, StatusCode = 0,
        IsTimeout = True\<rparr>
   \<and> timeStr_cell secs
       (check_host ''timeout.example.com''
         (Failed \<lparr>cause = DNSFailure, os_IsTimeout = False,
              Error_text = ''Get "https://timeout.example.com/v2/": dial tcp: lookup timeout.example.com: no such host''\<rparr>))
     = timeout_literal
   \<and> check_host ''mirror.example.com''
     (Failed \<lparr>cause = DNSFailure, os_IsTimeout = False,
              Error_text = ''Get "https://mirror.example.com/v2/": dial tcp: lookup mirror.example.com: no such host''\<rparr>)
     = \<lparr>Host = ''mirror.example.com'', Available = False, Time = 0, StatusCode = 0,
        IsTimeout = False\<rparr>\<close>
  by (simp add: check_host_def new_result_def Let_def HasPrefix_def timeStr_cell_def)

text \<open>
  C4. No outcome of the prober is both \<open>Available\<close> and \<open>IsTimeout\<close>, and an outcome with
  \<open>StatusCode = 0\<close> is not \<open>Available\<close>.
\<close>

theorem outcome_invariants:
  "\<not> (Available (check_host host reply) \<and> IsTimeout (check_host host reply))
   \<and> (StatusCode (check_host host reply) = 0 \<longrightarrow> \<not> Available (check_host host reply))"
  by (cases reply) (auto simp: check_host_def new_result_def Let_def)

theorem outcome_invariants_witness:
  "StatusCode (check_host ''mirror-a.example'' (Responded 0 5)) = 0
   \<and> \<not> Available (check_host ''mirror-a.example'' (Responded 0 5))
   \<and> \<not> (Available (check_host ''mirror-a.example'' (Responded 0 5))
          \<and> IsTimeout (check_host ''mirror-a.example'' (Responded 0 5)))"
  using outcome_invariants [of "''mirror-a.example''" "Responded 0 5"]
  by (simp add: check_host_def new_result_def)

text \<open>
  C9. An outcome of the prober with \<open>IsTimeout\<close> set has \<open>StatusCode = 0\<close> and \<open>Time = 0\<close>; a
  row of the report whose time column is the timeout literal has \<open>-\<close> in its status-code
  column.
\<close>

theorem timeout_rows:
  "(IsTimeout (check_host host reply) \<longrightarrow>
      StatusCode (check_host host reply) = 0 \<and> Time (check_host host reply) = 0)
   \<and> (timeStr_cell secs (check_host host reply) = timeout_literal \<longrightarrow>
      IsTimeout (check_host host reply) \<and> statusCode_cell (check_host host reply) = ''-'')"
  by (cases reply)
     (auto simp: check_host_def new_result_def Let_def timeStr_cell_def statusCode_cell_def
        timeout_literal_def append_eq_Cons_conv)

theorem timeout_rows_witness:
  "IsTimeout (check_host ''mirror-b.example''
      (Failed \<lparr>cause = DeadlineExceeded, os_IsTimeout = True, Error_text = ''context deadline exceeded''\<rparr>))
   \<and> StatusCode (check_host ''mirror-b.example''
      (Failed \<lparr>cause = DeadlineExceeded, os_IsTimeout = True, Error_text = ''context deadline exceeded''\<rparr>)) = 0
   \<and> timeStr_cell (\<lambda>t. ''0.00'') (check_host ''mirror-b.example''
      (Failed \<lparr>cause = DeadlineExceeded, os_IsTimeout = True, Error_text = ''context deadline exceeded''\<rparr>))
        = timeout_literal
   \<and> statusCode_cell (check_host ''mirror-b.example''
      (Failed \<lparr>cause = DeadlineExceeded, os_IsTimeout = True, Error_text = ''context deadline exceeded''\<rparr>))
        = ''-''"
  using timeout_rows [of "''mirror-b.example''"
      "Failed \<lparr>cause = DeadlineExceeded, os_IsTimeout = True, Error_text = ''context deadline exceeded''\<rparr>"
      "\<lambda>t. ''0.00''"]
  by (simp add: check_host_def new_result_def timeStr_cell_def)

section \<open>Properties of the reader\<close>

lemma space_width_le: "space_width runes s \<le> length s"
proof (cases "filter (\<lambda>r. HasPrefix s r) runes")
  case Nil
  then show ?thesis by (simp add: space_width_def)
next
  case (Cons r rs)
  then have "r \<in> set (filter (\<lambda>r. HasPrefix s r) runes)" by simp
  then have "prefix r s" by (simp add: HasPrefix_iff_prefix)
  then have "length r \<le> length s" by (rule prefix_length_le)
  with Cons show ?thesis by (simp add: space_width_def)
qed

lemma suffix_trim_left: "suffix (trim_left runes s) s"
proof (induction runes s rule: trim_left.induct)
  case (1 runes s)
  show ?case
  proof (cases "s = [] \<or> space_width runes s = 0")
    case True
    then show ?thesis by (subst trim_left.simps) auto
  next
    case False
    with 1 have "suffix (trim_left runes (drop (space_width runes s) s)) (drop (space_width runes s) s)"
      by simp
    then have "suffix (trim_left runes (drop (space_width runes s) s)) s"
      using suffix_drop suffix_order.trans by blast
    with False show ?thesis by (subst trim_left.simps) simp
  qed
qed

lemma space_width_snoc:
  assumes "\<forall>r\<in>set runes. c \<notin> set r"
  shows "space_width runes (t @ [c]) = space_width runes t"
proof -
  have "HasPrefix (t @ [c]) r = HasPrefix t r" if "r \<in> set runes" for r
  proof -
    from that assms have c: "c \<notin> set r" by simp
    show ?thesis
    proof
      assume "HasPrefix (t @ [c]) r"
      then have "prefix r (t @ [c])" by (simp add: HasPrefix_iff_prefix)
      then have "prefix r t \<or> r = t @ [c]" by (auto simp: prefix_snoc)
      with c show "HasPrefix t r" by (auto simp: HasPrefix_iff_prefix)
    next
      assume "HasPrefix t r"
      then show "HasPrefix (t @ [c]) r" by (simp add: HasPrefix_iff_prefix)
    qed
  qed
  then have "filter (\<lambda>r. HasPrefix (t @ [c]) r) runes = filter (\<lambda>r. HasPrefix t r) runes"
    by (intro filter_cong) auto
  then show ?thesis by (simp add: space_width_def)
qed

lemma space_width_Nil: "space_width runes [] = 0"
proof (cases "filter (\<lambda>r. HasPrefix [] r) runes")
  case Nil
  then show ?thesis by (simp add: space_width_def)
next
  case (Cons r rs)
  then have "r \<in> set (filter (\<lambda>r. HasPrefix [] r) runes)" by simp
  then have "r = []" by (simp add: HasPrefix_iff_prefix)
  with Cons show ?thesis by (simp add: space_width_def)
qed

lemma trim_left_snoc:
  assumes "\<forall>r\<in>set runes. c \<notin> set r"
  shows "trim_left runes (t @ [c]) = trim_left runes t @ [c]"
  using assms
proof (induction runes t rule: trim_left.induct)
  case (1 runes t)
  have w: "space_width runes (t @ [c]) = space_width runes t"
    using "1.prems" by (rule space_width_snoc)
  show ?case
  proof (cases "t = [] \<or> space_width runes t = 0")
    case True
    then have "space_width runes (t @ [c]) = 0"
      using w by (auto simp: space_width_Nil)
    moreover from True have "trim_left runes t = t"
      by (subst trim_left.simps) auto
    ultimately show ?thesis
      by (subst trim_left.simps) simp
  next
    case False
    then have IH: "trim_left runes (drop (space_width runes t) t @ [c])
        = trim_left runes (drop (space_width runes t) t) @ [c]"
      using 1 by simp
    have "drop (space_width runes t) (t @ [c]) = drop (space_width runes t) t @ [c]"
      using space_width_le [of runes t] by simp
    with False w IH have "trim_left runes (t @ [c]) = trim_left runes (drop (space_width runes t) t) @ [c]"
      by (subst trim_left.simps) simp
    also from False have "trim_left runes (drop (space_width runes t) t) = trim_left runes t"
      by (subst (2) trim_left.simps) simp
    finally show ?thesis .
  qed
qed

lemma TrimRightSpace_hash: "TrimRightSpace (CHR ''#'' # s) = CHR ''#'' # TrimRightSpace s"
proof -
  have "\<forall>r\<in>set (map rev space_runes). CHR ''#'' \<notin> set r"
    by (simp add: space_runes_def)
  then show ?thesis
    by (simp add: TrimRightSpace_def trim_left_snoc)
qed

lemma prefix_TrimRightSpace: "prefix (TrimRightSpace s) s"
  using suffix_trim_left [of "map rev space_runes" "rev s"]
  by (simp add: TrimRightSpace_def suffix_to_prefix)

lemma comment_line_iff: "comment_line l \<longleftrightarrow> HasPrefix (TrimSpace l) ''#''"
proof
  assume "comment_line l"
  then obtain s where "TrimLeftSpace l = CHR ''#'' # s"
    by (auto simp: comment_line_def split: list.splits)
  then show "HasPrefix (TrimSpace l) ''#''"
    by (simp add: TrimSpace_def TrimRightSpace_hash HasPrefix_def)
next
  assume "HasPrefix (TrimSpace l) ''#''"
  then have "prefix ''#'' (TrimRightSpace (TrimLeftSpace l))"
    by (simp add: HasPrefix_iff_prefix TrimSpace_def)
  then have "prefix ''#'' (TrimLeftSpace l)"
    using prefix_TrimRightSpace prefix_order.trans by blast
  then show "comment_line l"
    by (auto simp: comment_line_def prefix_def)
qed

lemma scan_loop:
  "fold (\<lambda>line hosts.
             let host = TrimSpace line in
             if host \<noteq> [] \<and> \<not> HasPrefix host ''#'' then hosts @ [host] else hosts)
          lines acc
   = acc @ map TrimSpace (filter (\<lambda>l. \<not> blank_line l \<and> \<not> comment_line l) lines)"
  by (induction lines arbitrary: acc) (simp_all add: Let_def blank_line_def comment_line_iff)

text \<open>
  C5. The hosts read are the lines that are neither blank nor comments, each trimmed, in
  the order of the input and with its duplicates; when no line is left the run fails
  with the empty-input error, otherwise it goes on with these hosts.
\<close>

theorem parse_hosts:
  "scan_hosts lines = map TrimSpace (filter (\<lambda>l. \<not> blank_line l \<and> \<not> comment_line l) lines)
   \<and> load_hosts lines False =
       (if filter (\<lambda>l. \<not> blank_line l \<and> \<not> comment_line l) lines = [] then Inl EmptyInput
        else Inr (map TrimSpace (filter (\<lambda>l. \<not> blank_line l \<and> \<not> comment_line l) lines)))
   \<and> checker lines False numWorkers sched =
       (if filter (\<lambda>l. \<not> blank_line l \<and> \<not> comment_line l) lines = [] then Inl EmptyInput
        else Inr (run numWorkers
                    (map TrimSpace (filter (\<lambda>l. \<not> blank_line l \<and> \<not> comment_line l) lines))
                    sched start))"
  by (simp add: checker_def load_hosts_def scan_hosts_def scan_loop)

theorem parse_hosts_witness:
  "scan_hosts [''mirror-a.example'', ''# comment'', '''', ''  mirror-b.example ''] =
     [''mirror-a.example'', ''mirror-b.example'']
   \<and> load_hosts [''mirror-a.example'', ''# comment'', '''', ''  mirror-b.example ''] False =
     Inr [''mirror-a.example'', ''mirror-b.example'']
   \<and> checker [''  # comment'', '' ''] False 4 [Main_step] = Inl EmptyInput"
proof -
  have k: "filter (\<lambda>l. \<not> blank_line l \<and> \<not> comment_line l)
      [''mirror-a.example'', ''# comment'', '''', ''  mirror-b.example '']
      = [''mirror-a.example'', ''  mirror-b.example '']"
    by code_simp
  have t: "map TrimSpace [''mirror-a.example'', ''  mirror-b.example '']
      = [''mirror-a.example'', ''mirror-b.example'']"
    by code_simp
  have e: "filter (\<lambda>l. \<not> blank_line l \<and> \<not> comment_line l) [''  # comment'', '' ''] = []"
    by code_simp
  from parse_hosts [of "[''mirror-a.example'', ''# comment'', '''', ''  mirror-b.example '']"]
    parse_hosts [of "[''  # comment'', '' '']" 4 "[Main_step]"] k t e
  show ?thesis by simp
qed

section \<open>Properties of the report\<close>

lemma select_loop:
  "fold (\<lambda>result displayResults.
                   if Available result \<and> \<not> IsTimeout result then displayResults @ [result]
                   else displayResults) rs acc = acc @ filter succeeded rs"
  by (induction rs arbitrary: acc) (simp_all add: succeeded_def)

lemma select_display_eq:
  "select_display listSuccess rs = (if listSuccess then filter succeeded rs else rs)"
  by (simp add: select_display_def select_loop)

lemma sort_Slice_sorted:
  "sort_Slice host_less xs ys \<Longrightarrow> sorted (map Host ys)"
  by (simp add: sort_Slice_def host_less_def sorted_map not_less)

lemma sorted_same_mset:
  fixes xs ys :: "'a::linorder list"
  assumes "sorted xs" "sorted ys" "mset xs = mset ys"
  shows "xs = ys"
  using assms by (metis properties_for_sort)


lemma sort_Slice_total: "sort_Slice host_less xs (sort_key Host xs)"
proof -
  have "sorted (map Host (sort_key Host xs))"
    by (rule sorted_sort_key)
  then have "sorted_wrt (\<lambda>a b. \<not> Host b < Host a) (sort_key Host xs)"
    by (simp add: sorted_map not_less)
  then show ?thesis
    by (simp add: sort_Slice_def host_less_def)
qed

lemma report_rows_hosts:
  assumes "report_rows listSuccess collected rows"
  shows "map Host rows = sort (map Host (select_display listSuccess collected))"
proof -
  from assms have m: "mset rows = mset (select_display listSuccess collected)"
    and s: "sorted (map Host rows)"
    by (simp_all add: report_rows_def sort_Slice_def sort_Slice_sorted)
  from m have "mset (map Host rows) = mset (map Host (select_display listSuccess collected))"
    by simp
  with s show ?thesis
    by (metis properties_for_sort)
qed

lemma select_display_mset:
  "mset arrived = mset collected \<Longrightarrow>
   mset (select_display listSuccess arrived) = mset (select_display listSuccess collected)"
  by (simp add: select_display_eq)

text \<open>
  C7. Whatever the order in which the results arrived, the rows of the report are in
  non-decreasing order of \<open>Host\<close>; two arrival orders of the same results give the same
  column of hosts.
\<close>

theorem report_sorted:
  "(\<exists>rows. report_rows listSuccess collected rows)
   \<and> (\<forall>rows. report_rows listSuccess collected rows \<longrightarrow>
         sorted (map Host rows)
         \<and> (\<forall>arrived rows'. mset arrived = mset collected \<and> report_rows listSuccess arrived rows'
               \<longrightarrow> map Host rows' = map Host rows))"
proof (intro conjI allI impI)
  show "\<exists>rows. report_rows listSuccess collected rows"
    unfolding report_rows_def using sort_Slice_total by blast
next
  fix rows assume "report_rows listSuccess collected rows"
  then show "sorted (map Host rows)"
    by (simp add: report_rows_def sort_Slice_sorted)
next
  fix rows arrived rows'
  assume r: "report_rows listSuccess collected rows"
    and a: "mset arrived = mset collected \<and> report_rows listSuccess arrived rows'"
  from a have "mset (map Host (select_display listSuccess arrived))
      = mset (map Host (select_display listSuccess collected))"
    using select_display_mset by (metis mset_map)
  then have "sort (map Host (select_display listSuccess arrived))
      = sort (map Host (select_display listSuccess collected))"
    by (metis properties_for_sort sorted_sort mset_sort)
  moreover from r have "map Host rows = sort (map Host (select_display listSuccess collected))"
    by (rule report_rows_hosts)
  moreover from a have "map Host rows' = sort (map Host (select_display listSuccess arrived))"
    by (simp add: report_rows_hosts)
  ultimately show "map Host rows' = map Host rows"
    by simp
qed

theorem report_sorted_witness:
  "report_rows False
     [check_host ''mirror-b.example'' (Responded 500 7), check_host ''mirror-a.example'' (Responded 200 5)]
     [check_host ''mirror-a.example'' (Responded 200 5), check_host ''mirror-b.example'' (Responded 500 7)]
   \<and> sorted (map Host
     [check_host ''mirror-a.example'' (Responded 200 5), check_host ''mirror-b.example'' (Responded 500 7)])"
proof -
  have r: "report_rows False
     [check_host ''mirror-b.example'' (Responded 500 7), check_host ''mirror-a.example'' (Responded 200 5)]
     [check_host ''mirror-a.example'' (Responded 200 5), check_host ''mirror-b.example'' (Responded 500 7)]"
    by (simp add: report_rows_def select_display_def sort_Slice_def host_less_def
        check_host_def new_result_def)
  with report_sorted [of False
     "[check_host ''mirror-b.example'' (Responded 500 7), check_host ''mirror-a.example'' (Responded 200 5)]"]
  show ?thesis by blast
qed

text \<open>
  C6. With \<open>-l\<close> the rows are exactly the results that are \<open>Available\<close> and not
  \<open>IsTimeout\<close>, in non-decreasing order of \<open>Host\<close>; they are among the rows of the full
  report, their hosts are those of the successful rows of the full report in the same
  order, and when no host occurs twice the rows themselves are.
\<close>

theorem successes_only_view:
  assumes "report_rows True collected rows"
  shows "mset rows = filter_mset (\<lambda>r. Available r \<and> \<not> IsTimeout r) (mset collected)
    \<and> sorted (map Host rows)
    \<and> (\<forall>full. report_rows False collected full \<longrightarrow>
          mset rows \<subseteq># mset full
          \<and> map Host rows = map Host (filter (\<lambda>r. Available r \<and> \<not> IsTimeout r) full)
          \<and> (distinct (map Host collected) \<longrightarrow>
                rows = filter (\<lambda>r. Available r \<and> \<not> IsTimeout r) full))"
proof (intro conjI allI impI)
  let ?ok = "\<lambda>r. Available r \<and> \<not> IsTimeout r"
  have ok: "succeeded = ?ok" by (auto simp: succeeded_def)
  from assms have m: "mset rows = mset (filter ?ok collected)"
    by (simp add: report_rows_def sort_Slice_def select_display_eq ok)
  then show "mset rows = filter_mset ?ok (mset collected)" by simp
  from assms show s: "sorted (map Host rows)"
    by (simp add: report_rows_def sort_Slice_sorted)
  fix full assume f: "report_rows False collected full"
  then have mf: "mset full = mset collected" and sf: "sorted (map Host full)"
    by (simp_all add: report_rows_def sort_Slice_def select_display_eq sort_Slice_sorted)
  from m mf show "mset rows \<subseteq># mset full"
    by (metis mset_filter multiset_filter_subset)
  have "sorted (map Host (filter ?ok full))"
    using sf by (simp add: sorted_map sorted_wrt_filter)
  moreover have "mset (map Host (filter ?ok full)) = mset (map Host rows)"
    using m mf by (metis mset_filter mset_map)
  ultimately show h: "map Host rows = map Host (filter ?ok full)"
    using s by (metis properties_for_sort)
  assume d: "distinct (map Host collected)"
  then have "distinct (map Host full)"
    using mf by (metis mset_map mset_eq_imp_distinct_iff)
  then have inj: "inj_on Host (set full)"
    by (simp add: distinct_map)
  have "set rows \<subseteq> set full"
    using m mf by (metis filter_is_subset mset_eq_setD)
  then have "inj_on Host (set rows \<union> set (filter ?ok full))"
    using inj by (auto intro: inj_on_subset)
  with h show "rows = filter ?ok full"
    by (simp add: inj_on_map_eq_map)
qed


theorem successes_only_view_witness:
  "report_rows True
     [check_host ''mirror-b.example'' (Responded 500 7), check_host ''mirror-a.example'' (Responded 200 5)]
     [check_host ''mirror-a.example'' (Responded 200 5)]
   \<and> report_rows False
     [check_host ''mirror-b.example'' (Responded 500 7), check_host ''mirror-a.example'' (Responded 200 5)]
     [check_host ''mirror-a.example'' (Responded 200 5), check_host ''mirror-b.example'' (Responded 500 7)]
   \<and> distinct (map Host
     [check_host ''mirror-b.example'' (Responded 500 7), check_host ''mirror-a.example'' (Responded 200 5)])
   \<and> [check_host ''mirror-a.example'' (Responded 200 5)] =
       filter (\<lambda>r. Available r \<and> \<not> IsTimeout r)
         [check_host ''mirror-a.example'' (Responded 200 5), check_host ''mirror-b.example'' (Responded 500 7)]"
proof -
  have t: "report_rows True
     [check_host ''mirror-b.example'' (Responded 500 7), check_host ''mirror-a.example'' (Responded 200 5)]
     [check_host ''mirror-a.example'' (Responded 200 5)]"
    by (simp add: report_rows_def select_display_def sort_Slice_def host_less_def
        check_host_def new_result_def)
  have f: "report_rows False
     [check_host ''mirror-b.example'' (Responded 500 7), check_host ''mirror-a.example'' (Responded 200 5)]
     [check_host ''mirror-a.example'' (Responded 200 5), check_host ''mirror-b.example'' (Responded 500 7)]"
    by (simp add: report_rows_def select_display_def sort_Slice_def host_less_def
        check_host_def new_result_def)
  have d: "distinct (map Host
     [check_host ''mirror-b.example'' (Responded 500 7), check_host ''mirror-a.example'' (Responded 200 5)])"
    by (simp add: check_host_def new_result_def)
  from successes_only_view [OF t] f d t show ?thesis by blast
qed

section \<open>Properties of the worker pool\<close>

lemma sum_list_map_update:
  fixes f :: "'a \<Rightarrow> 'b::comm_monoid_add"
  shows "i < length ws \<Longrightarrow>
    sum_list (map f (ws[i := w])) + f (ws ! i) = sum_list (map f ws) + f w"
proof (induction ws arbitrary: i)
  case Nil
  then show ?case by simp
next
  case (Cons a ws)
  show ?case
  proof (cases i)
    case 0
    then show ?thesis by (simp add: ac_simps)
  next
    case (Suc j)
    with Cons.prems have "j < length ws" by simp
    from Cons.IH [OF this] Suc show ?thesis
      by (simp add: add.assoc)
  qed
qed

lemma pool_inv_start: "pool_inv numWorkers hosts start"
  by (simp add: pool_inv_def start_def)

lemma Host_check_host [simp]: "Host (check_host host reply) = host"
  by (cases reply) (simp_all add: check_host_def new_result_def Let_def)

lemma alive_le_sum: "i < length ws \<Longrightarrow> alive (ws ! i) \<le> sum_list (map alive ws)"
  by (simp add: member_le_sum_list)

lemma alive_cases: "alive w = (if w = Returned then 0 else 1)"
  by (cases w) simp_all

lemma flight_take:
  "i < length ws \<Longrightarrow> ws ! i = Ranging \<Longrightarrow>
   sum_list (map in_flight (ws[i := Probing h])) = sum_list (map in_flight ws) + {#h#}"
  using sum_list_map_update [of i ws in_flight "Probing h"] by simp

lemma flight_reply:
  "i < length ws \<Longrightarrow> ws ! i = Probing h \<Longrightarrow> Host r = h \<Longrightarrow>
   sum_list (map in_flight (ws[i := Sending_result r])) = sum_list (map in_flight ws)"
  using sum_list_map_update [of i ws in_flight "Sending_result r"] by simp

lemma flight_sent:
  "i < length ws \<Longrightarrow> ws ! i = Sending_result r \<Longrightarrow>
   sum_list (map in_flight ws) = sum_list (map in_flight (ws[i := Ranging])) + {#Host r#}"
  using sum_list_map_update [of i ws in_flight Ranging] by simp

lemma flight_return:
  "i < length ws \<Longrightarrow> ws ! i = Ranging \<Longrightarrow>
   sum_list (map in_flight (ws[i := Returned])) = sum_list (map in_flight ws)"
  using sum_list_map_update [of i ws in_flight Returned] by simp

lemma alive_same:
  "i < length ws \<Longrightarrow> ws ! i \<noteq> Returned \<Longrightarrow> w \<noteq> Returned \<Longrightarrow>
   sum_list (map alive (ws[i := w])) = sum_list (map alive ws)"
  using sum_list_map_update [of i ws alive w] by (simp add: alive_cases)

lemma alive_return:
  "i < length ws \<Longrightarrow> ws ! i \<noteq> Returned \<Longrightarrow>
   sum_list (map alive ws) = Suc (sum_list (map alive (ws[i := Returned])))"
  using sum_list_map_update [of i ws alive Returned] by (simp add: alive_cases)

lemma alive_pos:
  "i < length ws \<Longrightarrow> ws ! i \<noteq> Returned \<Longrightarrow> 0 < sum_list (map alive ws)"
  using alive_return [of i ws] by simp

lemma Returned_update:
  assumes "i < length ws" "ws ! i \<noteq> Returned" "w \<noteq> Returned"
  shows "Returned \<in> set (ws[i := w]) \<longleftrightarrow> Returned \<in> set ws"
proof
  assume "Returned \<in> set (ws[i := w])"
  then have "Returned \<in> insert w (set ws)"
    using set_update_subset_insert by fastforce
  with assms show "Returned \<in> set ws" by simp
next
  assume "Returned \<in> set ws"
  then obtain k where k: "k < length ws" "ws ! k = Returned"
    by (auto simp: in_set_conv_nth)
  with assms have "k \<noteq> i" by auto
  with k have "(ws[i := w]) ! k = Returned" "k < length (ws[i := w])" by simp_all
  then show "Returned \<in> set (ws[i := w])"
    by (metis nth_mem)
qed

lemma main_spawn:
  assumes "pool_inv numWorkers hosts s" "main_pc s = Spawning i" "i < numWorkers"
  shows "pool_inv numWorkers hosts
           (s\<lparr>wg := wg s + 1, workers := workers s @ [Ranging], main_pc := Spawning (i + 1)\<rparr>)"
  using assms unfolding pool_inv_def by (elim conjE) (simp; linarith?)

lemma main_spawned:
  assumes "pool_inv numWorkers hosts s" "main_pc s = Spawning i" "\<not> i < numWorkers"
  shows "pool_inv numWorkers hosts (s\<lparr>main_pc := Sending hosts\<rparr>)"
  using assms unfolding pool_inv_def by (elim conjE) (simp; linarith?)

lemma main_send:
  assumes "pool_inv numWorkers hosts s" "main_pc s = Sending (host # rest)"
  shows "pool_inv numWorkers hosts (s\<lparr>jobs := jobs s @ [host], main_pc := Sending rest\<rparr>)"
  using assms unfolding pool_inv_def by (elim conjE) (simp; linarith?)

lemma main_close:
  assumes "pool_inv numWorkers hosts s" "main_pc s = Sending []"
  shows "pool_inv numWorkers hosts (s\<lparr>jobs_closed := True, main_pc := Start_closer\<rparr>)"
  using assms unfolding pool_inv_def by (elim conjE) (simp; linarith?)

lemma main_go_closer:
  assumes "pool_inv numWorkers hosts s" "main_pc s = Start_closer"
  shows "pool_inv numWorkers hosts (s\<lparr>closer := Some Waiting, main_pc := Collecting\<rparr>)"
  using assms unfolding pool_inv_def by (elim conjE) (simp; linarith?)

lemma main_collect:
  assumes "pool_inv numWorkers hosts s" "main_pc s = Collecting" "results s = result # rest"
  shows "pool_inv numWorkers hosts
           (s\<lparr>results := rest, resultCount := resultCount s + 1,
              allResults := allResults s @ [result],
              progress := progress s @ [(resultCount s + 1, length hosts)]\<rparr>)"
  using assms unfolding pool_inv_def by (elim conjE) (simp; linarith?)

lemma main_finish:
  assumes "pool_inv numWorkers hosts s" "main_pc s = Collecting" "results s = []" "results_closed s"
  shows "pool_inv numWorkers hosts (s\<lparr>main_pc := Finished\<rparr>)"
  using assms unfolding pool_inv_def by (elim conjE) (simp; linarith?)

lemma worker_take:
  assumes "pool_inv numWorkers hosts s" "i < length (workers s)" "workers s ! i = Ranging"
    "jobs s = host # rest"
  shows "pool_inv numWorkers hosts (s\<lparr>jobs := rest, workers := (workers s)[i := Probing host]\<rparr>)"
  using assms unfolding pool_inv_def
  by (elim conjE) (simp add: flight_take alive_same Returned_update; linarith?)

lemma worker_return:
  assumes "pool_inv numWorkers hosts s" "i < length (workers s)" "workers s ! i = Ranging"
    "jobs s = []" "jobs_closed s"
  shows "\<not> wg s - 1 < 0
    \<and> pool_inv numWorkers hosts (s\<lparr>wg := wg s - 1, workers := (workers s)[i := Returned]\<rparr>)"
  using assms alive_return [of i "workers s"] unfolding pool_inv_def
  by (elim conjE) (simp add: flight_return; linarith?)

lemma worker_send:
  assumes "pool_inv numWorkers hosts s" "i < length (workers s)"
    "workers s ! i = Sending_result result"
  shows "\<not> results_closed s
    \<and> pool_inv numWorkers hosts
        (s\<lparr>results := results s @ [result], workers := (workers s)[i := Ranging]\<rparr>)"
proof -
  from assms have "0 < wg s"
    using alive_pos [of i "workers s"] unfolding pool_inv_def by simp
  with assms(1) have nc: "closer s \<noteq> Some Closing" "closer s \<noteq> Some Gone"
    "\<not> results_closed s" "main_pc s \<noteq> Finished"
    unfolding pool_inv_def by auto
  from assms have ne: "workers s \<noteq> []" by auto
  show ?thesis
    using assms nc ne flight_sent [of i "workers s" result]
    unfolding pool_inv_def
    by (elim conjE) (simp add: alive_same Returned_update)
qed

lemma worker_reply:
  assumes "pool_inv numWorkers hosts s" "i < length (workers s)" "workers s ! i = Probing host"
  shows "pool_inv numWorkers hosts
        (s\<lparr>workers := (workers s)[i := Sending_result (check_host host reply)]\<rparr>)"
  using assms unfolding pool_inv_def
  by (elim conjE) (simp add: flight_reply alive_same Returned_update; linarith?)

lemma closer_wait:
  assumes "pool_inv numWorkers hosts s" "closer s = Some Waiting" "wg s = 0"
  shows "pool_inv numWorkers hosts (s\<lparr>closer := Some Closing\<rparr>)"
  using assms unfolding pool_inv_def
  by (elim conjE) (simp; linarith?)

lemma closer_close:
  assumes "pool_inv numWorkers hosts s" "closer s = Some Closing"
  shows "\<not> results_closed s
    \<and> pool_inv numWorkers hosts (s\<lparr>results_closed := True, closer := Some Gone\<rparr>)"
  using assms unfolding pool_inv_def
  by (elim conjE) (simp; linarith?)

lemma main_step_cases:
  assumes "main_step numWorkers hosts s = Some s'"
  obtains
    (spawn) i where "main_pc s = Spawning i" "i < numWorkers"
      "s' = s\<lparr>wg := wg s + 1, workers := workers s @ [Ranging], main_pc := Spawning (i + 1)\<rparr>"
  | (spawned) i where "main_pc s = Spawning i" "\<not> i < numWorkers"
      "s' = s\<lparr>main_pc := Sending hosts\<rparr>"
  | (send) host rest where "main_pc s = Sending (host # rest)" "\<not> jobs_closed s"
      "length (jobs s) < length hosts"
      "s' = s\<lparr>jobs := jobs s @ [host], main_pc := Sending rest\<rparr>"
  | (close) "main_pc s = Sending []" "\<not> jobs_closed s"
      "s' = s\<lparr>jobs_closed := True, main_pc := Start_closer\<rparr>"
  | (go_closer) "main_pc s = Start_closer"
      "s' = s\<lparr>closer := Some Waiting, main_pc := Collecting\<rparr>"
  | (collect) result rest where "main_pc s = Collecting" "results s = result # rest"
      "s' = s\<lparr>results := rest, resultCount := resultCount s + 1,
              allResults := allResults s @ [result],
              progress := progress s @ [(resultCount s + 1, length hosts)]\<rparr>"
  | (finish) "main_pc s = Collecting" "results s = []" "results_closed s"
      "s' = s\<lparr>main_pc := Finished\<rparr>"
  | (panic) rest where "main_pc s = Sending rest" "jobs_closed s" "s' = s\<lparr>panicked := True\<rparr>"
proof (cases "main_pc s")
  case (Spawning i)
  show thesis
  proof (cases "i < numWorkers")
    case True
    with Spawning assms show thesis
      by (intro spawn [of i]) (simp_all add: main_step_def)
  next
    case False
    with Spawning assms show thesis
      by (intro spawned [of i]) (simp_all add: main_step_def)
  qed
next
  case (Sending todo)
  show thesis
  proof (cases "jobs_closed s")
    case True
    with Sending assms show thesis
      by (intro panic [of todo]) (simp_all add: main_step_def split: list.splits)
  next
    case False
    show thesis
    proof (cases todo)
      case Nil
      with False Sending assms show thesis
        by (intro close) (simp_all add: main_step_def)
    next
      case (Cons host rest)
      with False Sending assms show thesis
        by (intro send [of host rest]) (simp_all add: main_step_def split: if_splits)
    qed
  qed
next
  case Start_closer
  with assms show thesis
    by (intro go_closer) (simp_all add: main_step_def)
next
  case Collecting
  show thesis
  proof (cases "results s")
    case Nil
    with Collecting assms show thesis
      by (intro finish) (simp_all add: main_step_def split: if_splits)
  next
    case (Cons result rest)
    with Collecting assms show thesis
      by (intro collect [of result rest]) (simp_all add: main_step_def)
  qed
next
  case Finished
  with assms show thesis
    by (simp add: main_step_def)
qed

lemma worker_step_cases:
  assumes "worker_step hosts i s = Some s'"
  obtains
    (take) host rest where "i < length (workers s)" "workers s ! i = Ranging"
      "jobs s = host # rest"
      "s' = s\<lparr>jobs := rest, workers := (workers s)[i := Probing host]\<rparr>"
  | (return) "i < length (workers s)" "workers s ! i = Ranging" "jobs s = []" "jobs_closed s"
      "\<not> wg s - 1 < 0"
      "s' = s\<lparr>wg := wg s - 1, workers := (workers s)[i := Returned]\<rparr>"
  | (send) result where "i < length (workers s)" "workers s ! i = Sending_result result"
      "\<not> results_closed s" "length (results s) < length hosts"
      "s' = s\<lparr>results := results s @ [result], workers := (workers s)[i := Ranging]\<rparr>"
  | (panic_wg) "i < length (workers s)" "workers s ! i = Ranging" "jobs s = []" "jobs_closed s"
      "wg s - 1 < 0" "s' = s\<lparr>panicked := True\<rparr>"
  | (panic_send) result where "i < length (workers s)" "workers s ! i = Sending_result result"
      "results_closed s" "s' = s\<lparr>panicked := True\<rparr>"
proof -
  from assms have i: "i < length (workers s)"
    by (simp add: worker_step_def split: if_splits)
  show thesis
  proof (cases "workers s ! i")
    case Ranging
    show thesis
    proof (cases "jobs s")
      case (Cons host rest)
      with Ranging i assms show thesis
        by (intro take [of host rest]) (simp_all add: worker_step_def)
    next
      case Nil
      show thesis
      proof (cases "wg s - 1 < 0")
        case True
        with Nil Ranging i assms show thesis
          by (intro panic_wg) (simp_all add: worker_step_def split: if_splits)
      next
        case False
        with Nil Ranging i assms show thesis
          by (intro return) (simp_all add: worker_step_def split: if_splits)
      qed
    qed
  next
    case (Probing host)
    with i assms show thesis
      by (simp add: worker_step_def)
  next
    case (Sending_result result)
    show thesis
    proof (cases "results_closed s")
      case True
      with Sending_result i assms show thesis
        by (intro panic_send [of result]) (simp_all add: worker_step_def)
    next
      case False
      with Sending_result i assms show thesis
        by (intro send [of result]) (simp_all add: worker_step_def split: if_splits)
    qed
  next
    case Returned
    with i assms show thesis
      by (simp add: worker_step_def)
  qed
qed

lemma get_returns_cases:
  assumes "get_returns i reply s = Some s'"
  obtains host where "i < length (workers s)" "workers s ! i = Probing host"
      "s' = s\<lparr>workers := (workers s)[i := Sending_result (check_host host reply)]\<rparr>"
proof -
  from assms have i: "i < length (workers s)"
    by (simp add: get_returns_def split: if_splits)
  show thesis
  proof (cases "workers s ! i")
    case (Probing host)
    with i assms show thesis
      by (intro that [of host]) (simp_all add: get_returns_def)
  qed (use i assms in \<open>simp_all add: get_returns_def\<close>)
qed

lemma closer_step_cases:
  assumes "closer_step s = Some s'"
  obtains
    (wait) "closer s = Some Waiting" "wg s = 0" "s' = s\<lparr>closer := Some Closing\<rparr>"
  | (close) "closer s = Some Closing" "\<not> results_closed s"
      "s' = s\<lparr>results_closed := True, closer := Some Gone\<rparr>"
  | (panic) "closer s = Some Closing" "results_closed s" "s' = s\<lparr>panicked := True\<rparr>"
proof (cases "closer s")
  case None
  with assms show thesis
    by (simp add: closer_step_def)
next
  case (Some c)
  show thesis
  proof (cases c)
    case Waiting
    with Some assms show thesis
      by (intro wait) (simp_all add: closer_step_def split: if_splits)
  next
    case Closing
    show thesis
    proof (cases "results_closed s")
      case True
      with Closing Some assms show thesis
        by (intro panic) (simp_all add: closer_step_def)
    next
      case False
      with Closing Some assms show thesis
        by (intro close) (simp_all add: closer_step_def)
    qed
  next
    case Gone
    with Some assms show thesis
      by (simp add: closer_step_def)
  qed
qed

lemma pool_inv_exec:
  assumes inv: "pool_inv numWorkers hosts s" and ex: "exec numWorkers hosts a s = Some s'"
  shows "pool_inv numWorkers hosts s'"
proof (cases a)
  case Main_step
  with ex have "main_step numWorkers hosts s = Some s'"
    by (simp add: exec_def split: if_splits)
  then show ?thesis
  proof (cases rule: main_step_cases)
    case (panic rest)
    with inv show ?thesis by (simp add: pool_inv_def)
  next
    case (collect result rest)
    with inv show ?thesis using main_collect [of numWorkers hosts s result rest] by simp
  qed (use inv in \<open>simp_all add: main_spawn main_spawned main_send main_close main_go_closer
        main_finish\<close>)
next
  case (Worker_step i)
  with ex have "worker_step hosts i s = Some s'"
    by (simp add: exec_def split: if_splits)
  then show ?thesis
  proof (cases rule: worker_step_cases)
    case (take host rest)
    with inv show ?thesis by (simp add: worker_take)
  next
    case return
    with inv show ?thesis by (simp add: worker_return)
  next
    case (send result)
    with inv show ?thesis by (simp add: worker_send)
  next
    case panic_wg
    with inv show ?thesis using worker_return [of numWorkers hosts s i] by simp
  next
    case (panic_send result)
    with inv show ?thesis using worker_send [of numWorkers hosts s i result] by simp
  qed
next
  case (Get_returns i reply)
  with ex have "get_returns i reply s = Some s'"
    by (simp add: exec_def split: if_splits)
  then show ?thesis
    by (cases rule: get_returns_cases) (use inv in \<open>simp add: worker_reply\<close>)
next
  case Closer_step
  with ex have "closer_step s = Some s'"
    by (simp add: exec_def split: if_splits)
  then show ?thesis
  proof (cases rule: closer_step_cases)
    case wait
    with inv show ?thesis by (simp add: closer_wait)
  next
    case close
    with inv show ?thesis by (simp add: closer_close)
  next
    case panic
    with inv show ?thesis using closer_close [of numWorkers hosts s] by simp
  qed
qed

lemma pool_inv_run:
  "pool_inv numWorkers hosts s \<Longrightarrow> run numWorkers hosts sched s = Some s' \<Longrightarrow>
   pool_inv numWorkers hosts s'"
proof (induction sched arbitrary: s)
  case Nil
  then show ?case by simp
next
  case (Cons a sched)
  then show ?case
    by (auto split: option.splits dest: pool_inv_exec)
qed

lemma pool_sizes:
  assumes "pool_inv numWorkers hosts s"
  shows "size (pending hosts (main_pc s)) + length (jobs s)
         + size (sum_list (map in_flight (workers s)))
         + length (results s) + length (allResults s) = length hosts"
proof -
  from assms have "size (pending hosts (main_pc s) + mset (jobs s)
      + sum_list (map in_flight (workers s))
      + mset (map Host (results s)) + mset (map Host (allResults s))) = size (mset hosts)"
    by (simp only: pool_inv_def)
  then show ?thesis by simp
qed

lemma none_alive:
  "sum_list (map alive ws) = 0 \<Longrightarrow> sum_list (map in_flight ws) = {#} \<and> set ws \<subseteq> {Returned}"
  by (induction ws) (auto simp: alive_cases split: if_splits)

lemma some_alive:
  "0 < sum_list (map alive ws) \<Longrightarrow> \<exists>i<length ws. ws ! i \<noteq> Returned"
proof (induction ws)
  case Nil
  then show ?case by simp
next
  case (Cons w ws)
  show ?case
  proof (cases "w = Returned")
    case True
    with Cons obtain i where "i < length ws" "ws ! i \<noteq> Returned" by auto
    then have "Suc i < length (w # ws)" "(w # ws) ! Suc i \<noteq> Returned" by simp_all
    then show ?thesis by blast
  next
    case False
    then have "0 < length (w # ws)" "(w # ws) ! 0 \<noteq> Returned" by simp_all
    then show ?thesis by blast
  qed
qed

lemma finished_all_returned:
  assumes "pool_inv numWorkers hosts s" "main_pc s = Finished"
  shows "sum_list (map in_flight (workers s)) = {#}" "set (workers s) \<subseteq> {Returned}"
    "results s = []" "results_closed s"
proof -
  from assms have "wg s = 0" "results s = []" "results_closed s"
    unfolding pool_inv_def by blast+
  moreover from assms have "wg s = int (sum_list (map alive (workers s)))"
    by (simp add: pool_inv_def)
  ultimately have "sum_list (map alive (workers s)) = 0" by simp
  from none_alive [OF this] \<open>results s = []\<close> \<open>results_closed s\<close>
  show "sum_list (map in_flight (workers s)) = {#}" "set (workers s) \<subseteq> {Returned}"
    "results s = []" "results_closed s"
    by simp_all
qed

lemma finished_with_workers:
  assumes inv: "pool_inv numWorkers hosts s" and fin: "main_pc s = Finished"
    and n: "1 \<le> numWorkers"
  shows "mset (map Host (allResults s)) = mset hosts"
proof -
  from inv fin n have "length (workers s) = nat numWorkers" "0 < nat numWorkers"
    by (simp_all add: pool_inv_def)
  then obtain w where "w \<in> set (workers s)"
    by (cases "workers s") auto
  with finished_all_returned(2) [OF inv fin] have "Returned \<in> set (workers s)" by auto
  with inv have "jobs s = []" by (simp add: pool_inv_def)
  moreover from inv have "pending hosts (main_pc s) + mset (jobs s)
      + sum_list (map in_flight (workers s))
      + mset (map Host (results s)) + mset (map Host (allResults s)) = mset hosts"
    by (simp only: pool_inv_def)
  ultimately show ?thesis
    using finished_all_returned [OF inv fin] fin by simp
qed

lemma without_workers:
  assumes inv: "pool_inv numWorkers hosts s" and n: "numWorkers \<le> 0"
  shows "workers s = []" "results s = []" "allResults s = []"
proof -
  from inv have "spawn_range numWorkers (main_pc s)"
    "length (workers s) = nat (spawned numWorkers (main_pc s))"
    by (simp_all add: pool_inv_def)
  with n show "workers s = []"
    by (cases "main_pc s") simp_all
  with inv show "results s = []" "allResults s = []"
    by (simp_all add: pool_inv_def)
qed

lemma finished_without_workers:
  assumes inv: "pool_inv numWorkers hosts s" and fin: "main_pc s = Finished"
    and n: "numWorkers \<le> 0"
  shows "mset (jobs s) = mset hosts"
proof -
  from inv have "pending hosts (main_pc s) + mset (jobs s)
      + sum_list (map in_flight (workers s))
      + mset (map Host (results s)) + mset (map Host (allResults s)) = mset hosts"
    by (simp only: pool_inv_def)
  with without_workers [OF inv n] fin show ?thesis by simp
qed

lemma exec_not_panicked: "exec numWorkers hosts a s = Some s' \<Longrightarrow> \<not> panicked s"
  by (simp add: exec_def split: if_splits)

lemma pool_progress:
  assumes inv: "pool_inv numWorkers hosts s" and nf: "main_pc s \<noteq> Finished"
  shows "\<exists>a s'. exec numWorkers hosts a s = Some s'"
proof -
  from inv have np: "\<not> panicked s" by (simp add: pool_inv_def)
  note sz = pool_sizes [OF inv]
  show ?thesis
  proof (cases "main_pc s")
    case (Spawning i)
    with np have "\<exists>s'. exec numWorkers hosts Main_step s = Some s'"
      by (simp add: exec_def main_step_def)
    then show ?thesis by blast
  next
    case (Sending todo)
    with inv have nc: "\<not> jobs_closed s" by (simp add: pool_inv_def)
    have "\<exists>s'. exec numWorkers hosts Main_step s = Some s'"
    proof (cases todo)
      case Nil
      with Sending nc np show ?thesis by (simp add: exec_def main_step_def)
    next
      case (Cons host rest)
      with Sending sz have "length (jobs s) < length hosts" by simp
      with Cons Sending nc np show ?thesis by (simp add: exec_def main_step_def)
    qed
    then show ?thesis by blast
  next
    case Start_closer
    with np have "\<exists>s'. exec numWorkers hosts Main_step s = Some s'"
      by (simp add: exec_def main_step_def)
    then show ?thesis by blast
  next
    case Collecting
    show ?thesis
    proof (cases "results s \<noteq> [] \<or> results_closed s")
      case True
      with Collecting np have "\<exists>s'. exec numWorkers hosts Main_step s = Some s'"
        by (auto simp: exec_def main_step_def split: list.splits)
      then show ?thesis by blast
    next
      case False
      with inv Collecting have c: "closer s = Some Waiting \<or> closer s = Some Closing"
        unfolding pool_inv_def by (cases "closer s"; cases "the (closer s)") auto
      show ?thesis
      proof (cases "closer s = Some Closing \<or> wg s = 0")
        case True
        with c False np have "\<exists>s'. exec numWorkers hosts Closer_step s = Some s'"
          by (auto simp: exec_def closer_step_def)
        then show ?thesis by blast
      next
        case wait: False
        from inv have wg: "wg s = int (sum_list (map alive (workers s)))"
          by (simp add: pool_inv_def)
        moreover from wait have "wg s \<noteq> 0" by blast
        ultimately have "0 < sum_list (map alive (workers s))" by arith
        from some_alive [OF this] obtain i
          where i: "i < length (workers s)" "workers s ! i \<noteq> Returned" by blast
        from inv Collecting have jc: "jobs_closed s" by (simp add: pool_inv_def)
        from wg \<open>wg s \<noteq> 0\<close> have pos: "\<not> wg s - 1 < 0" by arith
        show ?thesis
        proof (cases "workers s ! i")
          case Ranging
          with i jc pos np have "\<exists>s'. exec numWorkers hosts (Worker_step i) s = Some s'"
            by (simp add: exec_def worker_step_def split: list.splits)
          then show ?thesis by blast
        next
          case (Probing host)
          with i np have
            "\<exists>s'. exec numWorkers hosts (Get_returns i (Responded 200 0)) s = Some s'"
            by (simp add: exec_def get_returns_def)
          then show ?thesis by blast
        next
          case (Sending_result result)
          from flight_sent [OF i(1) this]
          have "0 < size (sum_list (map in_flight (workers s)))" by simp
          with sz have "length (results s) < length hosts" by simp
          with Sending_result i False np
          have "\<exists>s'. exec numWorkers hosts (Worker_step i) s = Some s'"
            by (simp add: exec_def worker_step_def)
          then show ?thesis by blast
        next
          case Returned
          with i show ?thesis by simp
        qed
      qed
    qed
  next
    case Finished
    with nf show ?thesis by simp
  qed
qed

lemma worker_pot_update:
  "i < length ws \<Longrightarrow>
   sum_list (map worker_pot (ws[i := w])) + worker_pot (ws ! i)
     = sum_list (map worker_pot ws) + worker_pot w"
  by (rule sum_list_map_update)

lemma potential_exec:
  assumes ex: "exec numWorkers hosts a s = Some s'"
  shows "potential numWorkers hosts s' < potential numWorkers hosts s"
proof -
  note np = exec_not_panicked [OF ex]
  show ?thesis
  proof (cases a)
    case Main_step
    with ex have "main_step numWorkers hosts s = Some s'"
      by (simp add: exec_def split: if_splits)
    then show ?thesis
      by (cases rule: main_step_cases) (use np in \<open>simp_all add: potential_def\<close>)
  next
    case (Worker_step i)
    with ex have "worker_step hosts i s = Some s'"
      by (simp add: exec_def split: if_splits)
    then show ?thesis
    proof (cases rule: worker_step_cases)
      case (take host rest)
      with np worker_pot_update [of i "workers s" "Probing host"] show ?thesis
        by (simp add: potential_def)
    next
      case return
      with np worker_pot_update [of i "workers s" Returned] show ?thesis
        by (simp add: potential_def)
    next
      case (send result)
      with np worker_pot_update [of i "workers s" Ranging] show ?thesis
        by (simp add: potential_def)
    next
      case panic_wg
      with np show ?thesis by (simp add: potential_def)
    next
      case (panic_send result)
      with np show ?thesis by (simp add: potential_def)
    qed
  next
    case (Get_returns i reply)
    with ex have "get_returns i reply s = Some s'"
      by (simp add: exec_def split: if_splits)
    then show ?thesis
    proof (cases rule: get_returns_cases)
      case (1 host)
      with np worker_pot_update [of i "workers s" "Sending_result (check_host host reply)"]
      show ?thesis by (simp add: potential_def)
    qed
  next
    case Closer_step
    with ex have "closer_step s = Some s'"
      by (simp add: exec_def split: if_splits)
    then show ?thesis
      by (cases rule: closer_step_cases) (use np in \<open>simp_all add: potential_def\<close>)
  qed
qed

lemma run_bounded:
  "run numWorkers hosts sched s = Some s' \<Longrightarrow>
   length sched + potential numWorkers hosts s' \<le> potential numWorkers hosts s"
proof (induction sched arbitrary: s)
  case Nil
  then show ?case by simp
next
  case (Cons a sched)
  then obtain s1 where s1: "exec numWorkers hosts a s = Some s1"
    "run numWorkers hosts sched s1 = Some s'"
    by (auto split: option.splits)
  from Cons.IH [OF s1(2)] potential_exec [OF s1(1)] show ?case by simp
qed

lemma potential_start: "potential numWorkers hosts start = 2 * nat numWorkers + 5 * length hosts + 7"
  by (simp add: potential_def start_def)

lemma run_append:
  "run numWorkers hosts (xs @ ys) s =
     (case run numWorkers hosts xs s of None \<Rightarrow> None | Some s1 \<Rightarrow> run numWorkers hosts ys s1)"
  by (induction xs arbitrary: s) (simp_all split: option.splits)

lemma pool_completes:
  "pool_inv numWorkers hosts s \<Longrightarrow>
   \<exists>sched s'. run numWorkers hosts sched s = Some s' \<and> main_pc s' = Finished"
proof (induction "potential numWorkers hosts s" arbitrary: s rule: less_induct)
  case less
  show ?case
  proof (cases "main_pc s = Finished")
    case True
    then have "run numWorkers hosts [] s = Some s \<and> main_pc s = Finished" by simp
    then show ?thesis by blast
  next
    case False
    from pool_progress [OF less.prems False] obtain a s1
      where s1: "exec numWorkers hosts a s = Some s1" by blast
    from less.hyps [OF potential_exec [OF s1] pool_inv_exec [OF less.prems s1]]
    obtain sched s' where "run numWorkers hosts sched s1 = Some s'" "main_pc s' = Finished"
      by blast
    with s1 have "run numWorkers hosts (a # sched) s = Some s' \<and> main_pc s' = Finished"
      by simp
    then show ?thesis by blast
  qed
qed

lemma prober_made_check_host: "prober_made (check_host host reply)"
  unfolding prober_made_def by (rule exI [of _ reply]) simp

lemma worker_made_update:
  "list_all worker_made ws \<Longrightarrow> worker_made w' \<Longrightarrow> list_all worker_made (ws[i := w'])"
  using set_update_subset_insert [of ws i w'] by (auto simp: list_all_iff)

lemma outcomes_inv_exec:
  assumes inv: "outcomes_inv s" and ex: "exec numWorkers hosts a s = Some s'"
  shows "outcomes_inv s'"
proof (cases a)
  case Main_step
  with ex have "main_step numWorkers hosts s = Some s'"
    by (simp add: exec_def split: if_splits)
  then show ?thesis
    by (cases rule: main_step_cases) (use inv in \<open>auto simp: outcomes_inv_def\<close>)
next
  case (Worker_step i)
  with ex have "worker_step hosts i s = Some s'"
    by (simp add: exec_def split: if_splits)
  then show ?thesis
  proof (cases rule: worker_step_cases)
    case (take host rest)
    with inv show ?thesis
      by (simp add: outcomes_inv_def worker_made_update)
  next
    case return
    with inv show ?thesis
      by (simp add: outcomes_inv_def worker_made_update)
  next
    case (send result)
    from inv have "list_all worker_made (workers s)"
      by (simp add: outcomes_inv_def)
    with send(1) have "worker_made (workers s ! i)"
      by (simp add: list_all_length)
    with send have "prober_made result" by simp
    with send inv show ?thesis
      by (simp add: outcomes_inv_def worker_made_update)
  next
    case panic_wg
    with inv show ?thesis by (simp add: outcomes_inv_def)
  next
    case (panic_send result)
    with inv show ?thesis by (simp add: outcomes_inv_def)
  qed
next
  case (Get_returns i reply)
  with ex have "get_returns i reply s = Some s'"
    by (simp add: exec_def split: if_splits)
  then show ?thesis
    by (cases rule: get_returns_cases)
       (use inv in \<open>simp add: outcomes_inv_def worker_made_update prober_made_check_host\<close>)
next
  case Closer_step
  with ex have "closer_step s = Some s'"
    by (simp add: exec_def split: if_splits)
  then show ?thesis
    by (cases rule: closer_step_cases) (use inv in \<open>simp_all add: outcomes_inv_def\<close>)
qed

lemma log_inv_exec:
  assumes inv: "log_inv hosts s" and ex: "exec numWorkers hosts a s = Some s'"
  shows "log_inv hosts s'"
proof (cases a)
  case Main_step
  with ex have "main_step numWorkers hosts s = Some s'"
    by (simp add: exec_def split: if_splits)
  then show ?thesis
    by (cases rule: main_step_cases) (use inv in \<open>simp_all add: log_inv_def\<close>)
next
  case (Worker_step i)
  with ex have "worker_step hosts i s = Some s'"
    by (simp add: exec_def split: if_splits)
  then show ?thesis
    by (cases rule: worker_step_cases) (use inv in \<open>simp_all add: log_inv_def\<close>)
next
  case (Get_returns i reply)
  with ex have "get_returns i reply s = Some s'"
    by (simp add: exec_def split: if_splits)
  then show ?thesis
    by (cases rule: get_returns_cases) (use inv in \<open>simp add: log_inv_def\<close>)
next
  case Closer_step
  with ex have "closer_step s = Some s'"
    by (simp add: exec_def split: if_splits)
  then show ?thesis
    by (cases rule: closer_step_cases) (use inv in \<open>simp_all add: log_inv_def\<close>)
qed

lemma outcomes_inv_run:
  "outcomes_inv s \<Longrightarrow> run numWorkers hosts sched s = Some s' \<Longrightarrow> outcomes_inv s'"
proof (induction sched arbitrary: s)
  case Nil
  then show ?case by simp
next
  case (Cons a sched)
  then show ?case
    by (auto split: option.splits dest: outcomes_inv_exec)
qed

lemma log_inv_run:
  "log_inv hosts s \<Longrightarrow> run numWorkers hosts sched s = Some s' \<Longrightarrow> log_inv hosts s'"
proof (induction sched arbitrary: s)
  case Nil
  then show ?case by simp
next
  case (Cons a sched)
  then show ?case
    by (auto split: option.splits dest: log_inv_exec)
qed

lemma outcomes_inv_start: "outcomes_inv start"
  by (simp add: outcomes_inv_def start_def)

lemma log_inv_start: "log_inv hosts start"
  by (simp add: log_inv_def start_def)

lemma reachable_inv:
  assumes "run numWorkers hosts sched start = Some s"
  shows "pool_inv numWorkers hosts s" "outcomes_inv s" "log_inv hosts s"
  using assms pool_inv_run [OF pool_inv_start] outcomes_inv_run [OF outcomes_inv_start]
    log_inv_run [OF log_inv_start]
  by blast+

lemma run_extends:
  assumes r: "run numWorkers hosts sched start = Some s"
  shows "\<exists>rest s'. run numWorkers hosts (sched @ rest) start = Some s' \<and> main_pc s' = Finished"
proof -
  from pool_completes [OF reachable_inv(1) [OF r]] obtain rest s'
    where "run numWorkers hosts rest s = Some s'" "main_pc s' = Finished" by blast
  with r have "run numWorkers hosts (sched @ rest) start = Some s' \<and> main_pc s' = Finished"
    by (simp add: run_append)
  then show ?thesis by blast
qed

text \<open>
  C1. With at least one worker and a non-empty list of hosts, in every state the
  program can reach under any schedule: nothing has panicked; no more results are
  collected than hosts were dispatched; the schedule is no longer than a bound fixed by
  the inputs; unless \<open>main\<close> is past its collecting loop some goroutine can take a step;
  and some continuation brings \<open>main\<close> past the loop. Once \<open>main\<close> is past the loop, it has
  collected exactly one result per dispatched host, duplicates counted, each made by
  the prober for its host, and every worker has returned.
\<close>

theorem pool_delivers_every_host:
  assumes n: "1 \<le> numWorkers" and h: "hosts \<noteq> []"
    and r: "run numWorkers hosts sched start = Some s"
  shows "\<not> panicked s
    \<and> length (allResults s) \<le> length hosts
    \<and> length sched \<le> 2 * nat numWorkers + 5 * length hosts + 7
    \<and> (main_pc s \<noteq> Finished \<longrightarrow> (\<exists>a s'. exec numWorkers hosts a s = Some s'))
    \<and> (\<exists>rest s'. run numWorkers hosts (sched @ rest) start = Some s' \<and> main_pc s' = Finished)
    \<and> (main_pc s = Finished \<longrightarrow>
          length (allResults s) = length hosts
          \<and> mset (map Host (allResults s)) = mset hosts
          \<and> (\<forall>r\<in>set (allResults s). \<exists>reply. r = check_host (Host r) reply)
          \<and> resultCount s = length hosts
          \<and> length (workers s) = nat numWorkers
          \<and> (\<forall>w\<in>set (workers s). w = Returned))"
proof -
  note inv = reachable_inv [OF r]
  from inv(1) have np: "\<not> panicked s" by (simp add: pool_inv_def)
  from pool_sizes [OF inv(1)] have le: "length (allResults s) \<le> length hosts" by simp
  from run_bounded [OF r] have b: "length sched \<le> 2 * nat numWorkers + 5 * length hosts + 7"
    by (simp add: potential_start)
  have p: "main_pc s \<noteq> Finished \<longrightarrow> (\<exists>a s'. exec numWorkers hosts a s = Some s')"
    using pool_progress [OF inv(1)] by blast
  have f: "length (allResults s) = length hosts
          \<and> mset (map Host (allResults s)) = mset hosts
          \<and> (\<forall>r\<in>set (allResults s). \<exists>reply. r = check_host (Host r) reply)
          \<and> resultCount s = length hosts
          \<and> length (workers s) = nat numWorkers
          \<and> (\<forall>w\<in>set (workers s). w = Returned)" if fin: "main_pc s = Finished"
  proof -
    have m: "mset (map Host (allResults s)) = mset hosts"
      by (rule finished_with_workers [OF inv(1) fin n])
    then have "size (mset (map Host (allResults s))) = size (mset hosts)" by simp
    then have l: "length (allResults s) = length hosts" by simp
    from inv(2) have "\<forall>r\<in>set (allResults s). \<exists>reply. r = check_host (Host r) reply"
      by (simp add: outcomes_inv_def list_all_iff prober_made_def)
    moreover from inv(3) l have "resultCount s = length hosts"
      by (simp add: log_inv_def)
    moreover from inv(1) fin have "length (workers s) = nat numWorkers"
      by (simp add: pool_inv_def)
    moreover from finished_all_returned(2) [OF inv(1) fin]
    have "\<forall>w\<in>set (workers s). w = Returned" by auto
    ultimately show ?thesis using m l by blast
  qed
  from np le b p run_extends [OF r] f show ?thesis by blast
qed

theorem pool_delivers_every_host_witness:
  "(1::int) \<le> 2 \<and> [''mirror-a.example'', ''mirror-b.example''] \<noteq> []
   \<and> map_option main_pc
        (run 2 [''mirror-a.example'', ''mirror-b.example'']
           [Main_step, Main_step, Main_step, Main_step, Main_step, Main_step, Main_step,
            Worker_step 0, Worker_step 1,
            Get_returns 1 (Failed \<lparr>cause = DeadlineExceeded, os_IsTimeout = True,
                                    Error_text = ''context deadline exceeded''\<rparr>),
            Worker_step 1, Main_step, Get_returns 0 (Responded 200 5), Worker_step 0,
            Worker_step 0, Worker_step 1, Main_step, Closer_step, Closer_step, Main_step]
           start) = Some Finished
   \<and> map_option (\<lambda>s. map Host (allResults s))
        (run 2 [''mirror-a.example'', ''mirror-b.example'']
           [Main_step, Main_step, Main_step, Main_step, Main_step, Main_step, Main_step,
            Worker_step 0, Worker_step 1,
            Get_returns 1 (Failed \<lparr>cause = DeadlineExceeded, os_IsTimeout = True,
                                    Error_text = ''context deadline exceeded''\<rparr>),
            Worker_step 1, Main_step, Get_returns 0 (Responded 200 5), Worker_step 0,
            Worker_step 0, Worker_step 1, Main_step, Closer_step, Closer_step, Main_step]
           start) = Some [''mirror-b.example'', ''mirror-a.example'']
   \<and> mset [''mirror-b.example'', ''mirror-a.example'']
       = mset [''mirror-a.example'', ''mirror-b.example'']"
proof -
  let ?final = "\<lparr>jobs = [], jobs_closed = True, results = [], results_closed = True,
     wg = 0, workers = [Returned, Returned], closer = Some Gone, main_pc = Finished,
     allResults =
       [\<lparr>Host = ''mirror-b.example'', Available = False, Time = 0, StatusCode = 0,
          IsTimeout = True\<rparr>,
        \<lparr>Host = ''mirror-a.example'', Available = True, Time = 5, StatusCode = 200,
          IsTimeout = False\<rparr>],
     resultCount = 2, progress = [(1, 2), (2, 2)], panicked = False\<rparr>"
  have r: "run 2 [''mirror-a.example'', ''mirror-b.example'']
           [Main_step, Main_step, Main_step, Main_step, Main_step, Main_step, Main_step,
            Worker_step 0, Worker_step 1,
            Get_returns 1 (Failed \<lparr>cause = DeadlineExceeded, os_IsTimeout = True,
                                    Error_text = ''context deadline exceeded''\<rparr>),
            Worker_step 1, Main_step, Get_returns 0 (Responded 200 5), Worker_step 0,
            Worker_step 0, Worker_step 1, Main_step, Closer_step, Closer_step, Main_step]
           start = Some ?final"
    by (simp add: exec_def main_step_def worker_step_def get_returns_def closer_step_def
        start_def check_host_def new_result_def)
  from pool_delivers_every_host [OF _ _ r]
  have "mset (map Host (allResults ?final)) = mset [''mirror-a.example'', ''mirror-b.example'']"
    by simp
  with r show ?thesis by simp
qed

text \<open>
  C10. With a worker count of zero or below, no worker is ever started, no state of
  the program is blocked before \<open>main\<close> is past its collecting loop, nothing panics, and
  when \<open>main\<close> is past the loop every host sits in the \<open>jobs\<close> buffer, both channels are
  closed, no result was collected and no progress was shown: the summary counts are 0
  and 0.
\<close>

theorem pool_without_workers:
  assumes n: "numWorkers \<le> 0" and h: "hosts \<noteq> []"
    and r: "run numWorkers hosts sched start = Some s"
  shows "\<not> panicked s
    \<and> workers s = [] \<and> results s = [] \<and> allResults s = []
    \<and> totalCount (allResults s) = 0 \<and> successCount (allResults s) = 0
    \<and> length sched \<le> 5 * length hosts + 7
    \<and> (main_pc s \<noteq> Finished \<longrightarrow> (\<exists>a s'. exec numWorkers hosts a s = Some s'))
    \<and> (\<exists>rest s'. run numWorkers hosts (sched @ rest) start = Some s' \<and> main_pc s' = Finished)
    \<and> (main_pc s = Finished \<longrightarrow>
          mset (jobs s) = mset hosts \<and> jobs_closed s \<and> results_closed s \<and> progress s = [])"
proof -
  note inv = reachable_inv [OF r]
  note w = without_workers [OF inv(1) n]
  from inv(1) have np: "\<not> panicked s" by (simp add: pool_inv_def)
  from w have c: "totalCount (allResults s) = 0 \<and> successCount (allResults s) = 0"
    by (simp add: totalCount_def successCount_def)
  from run_bounded [OF r] n have b: "length sched \<le> 5 * length hosts + 7"
    by (simp add: potential_start)
  have p: "main_pc s \<noteq> Finished \<longrightarrow> (\<exists>a s'. exec numWorkers hosts a s = Some s')"
    using pool_progress [OF inv(1)] by blast
  have f: "mset (jobs s) = mset hosts \<and> jobs_closed s \<and> results_closed s \<and> progress s = []"
    if fin: "main_pc s = Finished"
  proof -
    from inv(3) w have "progress s = []" by (simp add: log_inv_def)
    moreover from inv(1) fin have "jobs_closed s"
      by (simp add: pool_inv_def)
    moreover note finished_all_returned(4) [OF inv(1) fin]
    ultimately show ?thesis
      using finished_without_workers [OF inv(1) fin n] by simp
  qed
  from np w c b p run_extends [OF r] f show ?thesis by blast
qed

theorem pool_without_workers_witness:
  "(0::int) \<le> 0 \<and> [''mirror-a.example'', ''mirror-b.example''] \<noteq> []
   \<and> run 0 [''mirror-a.example'', ''mirror-b.example'']
        [Main_step, Main_step, Main_step, Main_step, Main_step, Closer_step, Closer_step,
         Main_step] start
      = Some \<lparr>jobs = [''mirror-a.example'', ''mirror-b.example''], jobs_closed = True,
          results = [], results_closed = True, wg = 0, workers = [],
          closer = Some Gone, main_pc = Finished, allResults = [],
          resultCount = 0, progress = [], panicked = False\<rparr>
   \<and> totalCount [] = 0 \<and> successCount [] = 0"
proof -
  have r: "run 0 [''mirror-a.example'', ''mirror-b.example'']
        [Main_step, Main_step, Main_step, Main_step, Main_step, Closer_step, Closer_step,
         Main_step] start
      = Some \<lparr>jobs = [''mirror-a.example'', ''mirror-b.example''], jobs_closed = True,
          results = [], results_closed = True, wg = 0, workers = [],
          closer = Some Gone, main_pc = Finished, allResults = [],
          resultCount = 0, progress = [], panicked = False\<rparr>"
    by (simp add: exec_def main_step_def worker_step_def get_returns_def closer_step_def
        start_def)
  from pool_without_workers [OF _ _ r] r show ?thesis by simp
qed

section \<open>Properties of the progress line\<close>

lemma rne_bounds: "\<lfloor>x\<rfloor> \<le> rne x \<and> rne x \<le> \<lfloor>x\<rfloor> + 1"
  by (simp add: rne_def Let_def)

lemma rne_of_int [simp]: "rne (of_int n) = n"
  by (simp add: rne_def)

lemma rne_mono: "x \<le> y \<Longrightarrow> rne x \<le> rne y"
proof -
  assume xy: "x \<le> y"
  then have f: "\<lfloor>x\<rfloor> \<le> \<lfloor>y\<rfloor>" by (rule floor_mono)
  show ?thesis
  proof (cases "\<lfloor>x\<rfloor> = \<lfloor>y\<rfloor>")
    case True
    with xy show ?thesis
      by (auto simp: rne_def Let_def)
  next
    case False
    with f have "\<lfloor>x\<rfloor> + 1 \<le> \<lfloor>y\<rfloor>" by simp
    with rne_bounds [of x] rne_bounds [of y] show ?thesis by linarith
  qed
qed


lemma two_powi_pos [simp]: "0 < (2::rat) powi k"
  by (simp add: power_int_def)

lemma two_powi_Suc: "(2::rat) powi (k + 1) = 2 * 2 powi k"
  by (simp add: power_int_add)

lemma expo_bounds:
  assumes "0 < x"
  shows "2 powi expo x \<le> x \<and> x < 2 powi (expo x + 1)"
proof -
  obtain p q where pq: "quotient_of x = (p, q)" by (cases "quotient_of x")
  then have q: "0 < q" and x: "x = of_int p / of_int q"
    by (simp_all add: quotient_of_denom_pos quotient_of_div)
  with assms have p: "0 < p"
    by (simp add: zero_less_divide_iff)
  define d where "d = bitlen p - bitlen q"
  have bl: "(2::rat) powi (bitlen n - 1) \<le> of_int n \<and> of_int n < (2::rat) powi bitlen n"
    if "0 < n" for n
  proof -
    from bitlen_bounds [OF that]
    have a: "2 ^ nat (bitlen n - 1) \<le> n" and b: "n < 2 ^ nat (bitlen n)" by simp_all
    have "1 \<le> bitlen n"
    proof (rule ccontr)
      assume "\<not> 1 \<le> bitlen n"
      then have "nat (bitlen n) = 0" by simp
      with b that show False by simp
    qed
    then have k: "0 \<le> bitlen n - 1" "0 \<le> bitlen n" by simp_all
    from a have "(of_int (2 ^ nat (bitlen n - 1)) :: rat) \<le> of_int n"
      by (simp only: of_int_le_iff)
    moreover from b have "(of_int n :: rat) < of_int (2 ^ nat (bitlen n))"
      by (simp only: of_int_less_iff)
    ultimately show ?thesis
      using k by (simp add: power_int_def)
  qed
  from bl [OF p] have p1: "(2::rat) powi (bitlen p - 1) \<le> of_int p"
    and p2: "of_int p < (2::rat) powi bitlen p"
    by simp_all
  from bl [OF q] have q1: "(2::rat) powi (bitlen q - 1) \<le> of_int q"
    and q2: "of_int q < (2::rat) powi bitlen q"
    by simp_all
  have qpos: "(0::rat) < of_int q" using q by simp
  have ppos: "(0::rat) < of_int p" using p by simp
  have "(2::rat) powi (d - 1) * of_int q \<le> 2 powi (d - 1) * 2 powi bitlen q"
    using q2 by (simp add: less_imp_le)
  also have "\<dots> = 2 powi (bitlen p - 1)"
    by (simp add: d_def power_int_add [symmetric])
  also have "\<dots> \<le> of_int p" by (rule p1)
  finally have lo: "2 powi (d - 1) \<le> x"
    using qpos by (simp add: x pos_le_divide_eq)
  have "of_int p < (2::rat) powi bitlen p" by (rule p2)
  also have "\<dots> = 2 powi (d + 1) * 2 powi (bitlen q - 1)"
    by (simp add: d_def power_int_add [symmetric])
  also have "\<dots> \<le> 2 powi (d + 1) * of_int q"
    using q1 by simp
  finally have hi: "x < 2 powi (d + 1)"
    using qpos by (simp add: x pos_divide_less_eq)
  show ?thesis
  proof (cases "2 powi d \<le> x")
    case True
    with pq hi show ?thesis by (simp add: expo_def d_def Let_def)
  next
    case False
    with pq lo show ?thesis by (simp add: expo_def d_def Let_def)
  qed
qed


lemma two_powi_less_imp: "(2::rat) powi a < 2 powi b \<Longrightarrow> a < b"
proof (rule ccontr)
  assume l: "(2::rat) powi a < 2 powi b" and "\<not> a < b"
  then have "b \<le> a" by simp
  then have "(2::rat) powi b \<le> 2 powi a"
    by (simp add: power_int_increasing)
  with l show False by simp
qed

lemma expo_mono:
  assumes "0 < x" "x \<le> y"
  shows "expo x \<le> expo y"
proof -
  from assms have "0 < y" by simp
  from expo_bounds [OF assms(1)] expo_bounds [OF this] assms(2)
  have "(2::rat) powi expo x < 2 powi (expo y + 1)" by linarith
  then have "expo x < expo y + 1" by (rule two_powi_less_imp)
  then show ?thesis by simp
qed

lemma scaled_range:
  assumes "0 < x"
  shows "2 ^ 52 \<le> x / 2 powi (expo x - 52) \<and> x / 2 powi (expo x - 52) < 2 ^ 53"
proof -
  have a: "(2::rat) powi expo x = 2 ^ 52 * 2 powi (expo x - 52)"
    by (simp add: power_int_diff)
  have b: "(2::rat) powi (expo x + 1) = 2 ^ 53 * 2 powi (expo x - 52)"
    by (simp add: power_int_diff power_int_add)
  from expo_bounds [OF assms] show ?thesis
    by (simp add: a b pos_le_divide_eq pos_divide_less_eq)
qed

lemma rne_scaled:
  assumes "0 < x"
  shows "2 ^ 52 \<le> rne (x / 2 powi (expo x - 52)) \<and> rne (x / 2 powi (expo x - 52)) \<le> 2 ^ 53"
proof -
  from scaled_range [OF assms]
  have "rat_of_int (2 ^ 52) \<le> x / 2 powi (expo x - 52)"
    and "x / 2 powi (expo x - 52) \<le> rat_of_int (2 ^ 53)"
    by simp_all
  from rne_mono [OF this(1)] rne_mono [OF this(2)] show ?thesis
    by (simp only: rne_of_int)
qed

lemma r64_range:
  assumes "0 < x"
  shows "2 powi expo x \<le> r64 x \<and> r64 x \<le> 2 powi (expo x + 1)"
proof -
  let ?u = "(2::rat) powi (expo x - 52)"
  have a: "(2::rat) powi expo x = 2 ^ 52 * ?u"
    by (simp add: power_int_diff)
  have b: "(2::rat) powi (expo x + 1) = 2 ^ 53 * ?u"
    by (simp add: power_int_diff power_int_add)
  from rne_scaled [OF assms]
  have "rat_of_int (2 ^ 52) \<le> of_int (rne (x / ?u))" "rat_of_int (rne (x / ?u)) \<le> of_int (2 ^ 53)"
    by (simp_all only: of_int_le_iff)
  then have "2 ^ 52 * ?u \<le> of_int (rne (x / ?u)) * ?u" "of_int (rne (x / ?u)) * ?u \<le> 2 ^ 53 * ?u"
    by simp_all
  with assms show ?thesis
    by (simp add: r64_def a b)
qed

lemma r64_mono:
  assumes "0 < x" "x \<le> y"
  shows "r64 x \<le> r64 y"
proof -
  from assms have y: "0 < y" by simp
  show ?thesis
  proof (cases "expo x = expo y")
    case True
    let ?u = "(2::rat) powi (expo y - 52)"
    from assms(2) have "x / ?u \<le> y / ?u"
      by (simp add: divide_right_mono)
    then have "rat_of_int (rne (x / ?u)) \<le> of_int (rne (y / ?u))"
      by (simp add: rne_mono)
    then have "of_int (rne (x / ?u)) * ?u \<le> of_int (rne (y / ?u)) * ?u"
      by simp
    with assms y True show ?thesis
      by (simp add: r64_def)
  next
    case False
    with expo_mono [OF assms] have "expo x + 1 \<le> expo y" by simp
    then have "(2::rat) powi (expo x + 1) \<le> 2 powi expo y"
      by (simp add: power_int_increasing)
    with r64_range [OF assms(1)] r64_range [OF y] show ?thesis by linarith
  qed
qed

lemma r64_positive: "0 < x \<Longrightarrow> 0 < r64 x"
  using r64_range [of x] two_powi_pos [of "expo x"] by linarith

lemma r64_1 [simp]: "r64 1 = 1"
  by code_simp

lemma r64_100 [simp]: "r64 100 = 100"
  by code_simp


lemma float64_pos: "1 \<le> n \<Longrightarrow> 0 < float64 n"
  by (simp add: float64_def r64_positive)

lemma float64_mono: "1 \<le> m \<Longrightarrow> m \<le> n \<Longrightarrow> float64 m \<le> float64 n"
  by (simp add: float64_def r64_mono)

lemma percentage_Some:
  "1 \<le> t \<Longrightarrow> percentage c t = Some (r64 (float64 c / float64 t))"
  using float64_pos [of t] by (simp add: percentage_def fdiv_def)

lemma quotient_pos: "1 \<le> c \<Longrightarrow> 1 \<le> t \<Longrightarrow> 0 < r64 (float64 c / float64 t)"
  by (simp add: r64_positive float64_pos)

lemma quotient_mono:
  assumes "1 \<le> c" "c \<le> c'" "1 \<le> t"
  shows "r64 (float64 c / float64 t) \<le> r64 (float64 c' / float64 t)"
proof -
  from assms have "float64 c / float64 t \<le> float64 c' / float64 t"
    by (simp add: divide_right_mono float64_mono float64_pos less_imp_le)
  moreover from assms have "0 < float64 c / float64 t"
    by (simp add: float64_pos)
  ultimately show ?thesis
    by (rule r64_mono [rotated])
qed

lemma quotient_full: "1 \<le> t \<Longrightarrow> r64 (float64 t / float64 t) = 1"
  using float64_pos [of t] by simp

lemma quotient_le_1:
  assumes "1 \<le> c" "c \<le> t"
  shows "r64 (float64 c / float64 t) \<le> 1"
proof -
  from assms have "r64 (float64 c / float64 t) \<le> r64 (float64 t / float64 t)"
    by (intro quotient_mono) simp_all
  moreover from assms have "r64 (float64 t / float64 t) = 1"
    by (intro quotient_full) simp
  ultimately show ?thesis by linarith
qed

lemma shown_mono:
  assumes "1 \<le> c" "c \<le> c'" "1 \<le> t"
  shows "r64 (r64 (float64 c / float64 t) * 100) \<le> r64 (r64 (float64 c' / float64 t) * 100)"
proof -
  from assms have "r64 (float64 c / float64 t) * 100 \<le> r64 (float64 c' / float64 t) * 100"
    by (simp add: quotient_mono)
  moreover from assms have "0 < r64 (float64 c / float64 t) * 100"
    by (simp add: quotient_pos)
  ultimately show ?thesis
    by (rule r64_mono [rotated])
qed

lemma shown_pos:
  assumes "1 \<le> c" "1 \<le> t"
  shows "0 < r64 (r64 (float64 c / float64 t) * 100)"
proof -
  from assms have "0 < r64 (float64 c / float64 t) * 100"
    by (simp add: quotient_pos)
  then show ?thesis by (rule r64_positive)
qed

lemma shown_full:
  assumes "1 \<le> t"
  shows "r64 (r64 (float64 t / float64 t) * 100) = 100"
proof -
  have "r64 (float64 t / float64 t) * 100 = 100"
    by (simp only: quotient_full [OF assms] mult_1)
  then show ?thesis by (simp only: r64_100)
qed

lemma Sprintf_1f_100: "Sprintf_1f 100 = ''100.0''"
  by code_simp

lemma expo_unique:
  assumes "2 powi e \<le> x" "x < 2 powi (e + 1)"
  shows "expo x = e"
proof -
  from assms(1) have x: "0 < x"
    using two_powi_pos [of e] by linarith
  from expo_bounds [OF x] assms
  have l: "(2::rat) powi expo x < 2 powi (e + 1)" "(2::rat) powi e < 2 powi (expo x + 1)"
    by linarith+
  from two_powi_less_imp [OF l(1)] two_powi_less_imp [OF l(2)]
  show ?thesis by simp
qed

lemma r64_int_exact:
  assumes "1 \<le> n" "n \<le> 2 ^ 53"
  shows "r64 (of_int n) = of_int n"
proof -
  let ?x = "rat_of_int n"
  from assms have x: "0 < ?x" by simp
  note b = expo_bounds [OF x]
  have e0: "0 \<le> expo ?x"
  proof -
    from assms b have "(2::rat) powi 0 < 2 powi (expo ?x + 1)" by simp
    then have "0 < expo ?x + 1" by (rule two_powi_less_imp)
    then show ?thesis by simp
  qed
  have e53: "expo ?x \<le> 53"
  proof -
    from assms have "?x \<le> 2 ^ 53"
      by (metis of_int_le_iff of_int_numeral of_int_power)
    with b have "(2::rat) powi expo ?x < 2 powi (53 + 1)" by simp
    then have "expo ?x < 53 + 1" by (rule two_powi_less_imp)
    then show ?thesis by simp
  qed
  show ?thesis
  proof (cases "expo ?x = 53")
    case True
    with b have "(2::rat) ^ 53 \<le> ?x" by simp
    moreover from assms have "?x \<le> 2 ^ 53"
      by (metis of_int_le_iff of_int_numeral of_int_power)
    ultimately have "?x = 2 ^ 53" by simp
    moreover have "r64 (2 ^ 53) = 2 ^ 53" by code_simp
    ultimately show ?thesis by simp
  next
    case False
    with e53 have le: "0 \<le> 52 - expo ?x" by simp
    have "?x / 2 powi (expo ?x - 52) = ?x * 2 powi (52 - expo ?x)"
      by (simp add: power_int_diff field_simps)
    also have "\<dots> = of_int (n * 2 ^ nat (52 - expo ?x))"
      using le by (simp add: power_int_def)
    finally have "rne (?x / 2 powi (expo ?x - 52)) = n * 2 ^ nat (52 - expo ?x)"
      by (simp only: rne_of_int)
    then have "r64 ?x = of_int (n * 2 ^ nat (52 - expo ?x)) * 2 powi (expo ?x - 52)"
      using x by (simp add: r64_def)
    also have "\<dots> = ?x * (2 powi (52 - expo ?x) * 2 powi (expo ?x - 52))"
      using le by (simp add: power_int_def)
    also have "2 powi (52 - expo ?x) * (2::rat) powi (expo ?x - 52) = 1"
      by (simp add: power_int_add [symmetric])
    finally show ?thesis by simp
  qed
qed

lemma shown_below_100:
  assumes "1 \<le> c" "c < t" "t \<le> 2 ^ 53"
  shows "r64 (r64 (float64 c / float64 t) * 100) < 100"
proof -
  from assms have fc: "float64 c = of_int c" and ft: "float64 t = of_int t"
    by (simp_all add: float64_def r64_int_exact)
  from assms have tpos: "(0::rat) < of_int t" by simp
  from assms have "rat_of_int t \<le> 2 ^ 53"
    by (metis of_int_le_iff of_int_numeral of_int_power)
  with tpos have "1 / 2 ^ 53 \<le> 1 / rat_of_int t"
    by (simp add: frac_le)
  moreover from assms have "rat_of_int c \<le> of_int t - 1"
    by (metis of_int_1 of_int_diff of_int_le_iff zle_diff1_eq)
  then have "rat_of_int c / of_int t \<le> (of_int t - 1) / of_int t"
    using tpos by (simp add: divide_right_mono)
  moreover have "(rat_of_int t - 1) / of_int t = 1 - 1 / of_int t"
    using tpos by (simp add: field_simps)
  ultimately have "rat_of_int c / of_int t \<le> 1 - 1 / 2 ^ 53"
    by linarith
  also have "(1::rat) - 1 / 2 ^ 53 = 9007199254740991 / 9007199254740992"
    by simp
  finally have q: "rat_of_int c / of_int t \<le> 9007199254740991 / 9007199254740992" .
  from assms tpos have "0 < rat_of_int c / of_int t" by simp
  from r64_mono [OF this q] have "r64 (rat_of_int c / of_int t) \<le> r64 (9007199254740991 / 9007199254740992)" .
  also have "r64 (9007199254740991 / 9007199254740992) = 9007199254740991 / 9007199254740992"
    by code_simp
  finally have p: "r64 (float64 c / float64 t) * 100 \<le> 9007199254740991 / 9007199254740992 * 100"
    by (simp add: fc ft)
  from assms have "0 < r64 (float64 c / float64 t) * 100"
    by (simp add: quotient_pos)
  from r64_mono [OF this p]
  have "r64 (r64 (float64 c / float64 t) * 100) \<le> r64 (9007199254740991 / 9007199254740992 * 100)" .
  also have "r64 (9007199254740991 / 9007199254740992 * 100) = 7036874417766399 / 70368744177664"
    by code_simp
  also have "\<dots> < (100::rat)" by simp
  finally show ?thesis .
qed


lemma percent_shown_Some:
  "1 \<le> t \<Longrightarrow> percent_shown c t = Some (r64 (r64 (float64 c / float64 t) * 100))"
  by (simp add: percent_shown_def percentage_Some)

lemma filled_range:
  assumes "1 \<le> c" "c \<le> t"
  shows "0 \<le> int_of_float64 (r64 (float64 40 * r64 (float64 c / float64 t)))
    \<and> int_of_float64 (r64 (float64 40 * r64 (float64 c / float64 t))) \<le> 40"
proof -
  let ?p = "r64 (float64 c / float64 t)"
  let ?f = "r64 (float64 40 * ?p)"
  have f40: "float64 40 = 40" by code_simp
  from assms have p: "0 < ?p" "?p \<le> 1"
    by (simp_all add: quotient_pos quotient_le_1)
  then have "0 < float64 40 * ?p" "float64 40 * ?p \<le> 40"
    by (simp_all add: f40)
  from r64_positive [OF this(1)] r64_mono [OF this] have "0 < ?f" "?f \<le> r64 40"
    by simp_all
  moreover have "r64 40 = 40" by code_simp
  ultimately show ?thesis
    by (simp add: int_of_float64_def floor_le_iff)
qed

lemma showProgress_line:
  assumes "1 \<le> c" "c \<le> t"
  shows "showProgress c t =
    Some ([CHR 0x0D, CHR 0xE6, CHR 0xA3, CHR 0x80, CHR 0xE6, CHR 0xB5, CHR 0x8B,
           CHR 0xE8, CHR 0xBF, CHR 0x9B, CHR 0xE5, CHR 0xBA, CHR 0xA6]
          @ '': [''
          @ concat (replicate (nat (int_of_float64 (r64 (float64 40 * r64 (float64 c / float64 t)))))
              [CHR 0xE2, CHR 0x96, CHR 0x88])
          @ concat (replicate (nat (40 - int_of_float64 (r64 (float64 40 * r64 (float64 c / float64 t)))))
              [CHR 0xE2, CHR 0x96, CHR 0x91])
          @ ''] '' @ Sprintf_d c @ ''/'' @ Sprintf_d t @ '' (''
          @ Sprintf_1f (r64 (r64 (float64 c / float64 t) * 100)) @ ''%)'')"
proof -
  from assms have t: "1 \<le> t" by simp
  from filled_range [OF assms] t show ?thesis
    by (simp add: showProgress_def percentage_Some Repeat_def Let_def)
qed

lemma sorted_map_upt:
  fixes f :: "nat \<Rightarrow> 'a::linorder"
  assumes "\<And>i j. a \<le> i \<Longrightarrow> i \<le> j \<Longrightarrow> j < b \<Longrightarrow> f i \<le> f j"
  shows "sorted (map f [a..<b])"
proof -
  have "sorted_wrt (\<lambda>i j. f i \<le> f j) [a..<b]"
    by (rule sorted_wrt_mono_rel [of "[a..<b]" "(\<le>)"]) (auto intro: assms)
  then show ?thesis by (simp add: sorted_map)
qed

lemma percent_shown_unfold:
  "1 \<le> t \<Longrightarrow>
   percent_shown c t = Some (r64 (r64 (r64 (of_int c) / r64 (of_int t)) * 100))"
  by (simp add: percent_shown_Some float64_def)

lemma percent_text_halves: "percent_shown 1 2 = Some 50 \<and> Sprintf_1f 50 = ''50.0''"
proof -
  have e: "r64 1 = 1" "r64 2 = 2" "r64 (1 / 2) = 1 / 2" "r64 (1 / 2 * 100) = 50"
    by code_simp+
  have "percent_shown 1 2 = Some (r64 (r64 (r64 1 / r64 2) * 100))"
    using percent_shown_unfold [of 2 1] by simp
  also have "\<dots> = Some 50"
    by (simp only: e)
  finally have p: "percent_shown 1 2 = Some 50" .
  have "Sprintf_1f 50 = ''50.0''" by code_simp
  with p show ?thesis by simp
qed

lemma percent_text_thirds:
  "percent_shown 1 3 = Some (2345624805922133 / 70368744177664)
   \<and> Sprintf_1f (2345624805922133 / 70368744177664) = ''33.3''
   \<and> percent_shown 2 3 = Some (2345624805922133 / 35184372088832)
   \<and> Sprintf_1f (2345624805922133 / 35184372088832) = ''66.7''"
proof -
  have e: "r64 1 = 1" "r64 2 = 2" "r64 3 = 3"
    "r64 (1 / 3) = 6004799503160661 / 18014398509481984"
    "r64 (2 / 3) = 6004799503160661 / 9007199254740992"
    "r64 (6004799503160661 / 18014398509481984 * 100) = 2345624805922133 / 70368744177664"
    "r64 (6004799503160661 / 9007199254740992 * 100) = 2345624805922133 / 35184372088832"
    by code_simp+
  have "percent_shown 1 3 = Some (r64 (r64 (r64 1 / r64 3) * 100))"
    using percent_shown_unfold [of 3 1] by simp
  also have "\<dots> = Some (2345624805922133 / 70368744177664)"
    by (simp only: e)
  finally have p1: "percent_shown 1 3 = Some (2345624805922133 / 70368744177664)" .
  have "percent_shown 2 3 = Some (r64 (r64 (r64 2 / r64 3) * 100))"
    using percent_shown_unfold [of 3 2] by simp
  also have "\<dots> = Some (2345624805922133 / 35184372088832)"
    by (simp only: e)
  finally have p2: "percent_shown 2 3 = Some (2345624805922133 / 35184372088832)" .
  have "Sprintf_1f (2345624805922133 / 70368744177664) = ''33.3''"
    "Sprintf_1f (2345624805922133 / 35184372088832) = ''66.7''"
    by code_simp+
  with p1 p2 show ?thesis by simp
qed

text \<open>
  The rendering to one decimal rounds: with 1999 of 2000 results the number printed is
  a little above 99.95, below 100, and its rendering already reads \<open>100.0\<close>.
\<close>

lemma percent_text_rounds_up:
  "percent_shown 1999 2000 = Some (7033355980557517 / 70368744177664)
   \<and> (7033355980557517 / 70368744177664 :: rat) < 100
   \<and> Sprintf_1f (7033355980557517 / 70368744177664) = ''100.0''"
proof -
  have e: "r64 1999 = 1999" "r64 2000 = 2000"
    "r64 (1999 / 2000) = 4501347827556811 / 4503599627370496"
    "r64 (4501347827556811 / 4503599627370496 * 100) = 7033355980557517 / 70368744177664"
    by code_simp+
  have "percent_shown 1999 2000 = Some (r64 (r64 (r64 1999 / r64 2000) * 100))"
    using percent_shown_unfold [of 2000 1999] by simp
  also have "\<dots> = Some (7033355980557517 / 70368744177664)"
    by (simp only: e)
  finally have p: "percent_shown 1999 2000 = Some (7033355980557517 / 70368744177664)" .
  have "Sprintf_1f (7033355980557517 / 70368744177664) = ''100.0''" by code_simp
  with p show ?thesis by simp
qed

text \<open>With no hosts there is no quotient: \<open>showProgress\<close> has no line to give.\<close>

lemma showProgress_zero_total: "showProgress current 0 = None"
  by (simp add: showProgress_def percentage_def fdiv_def float64_def r64_def)

text \<open>
  C8. In every state the program reaches, \<open>showProgress\<close> has been called once per
  collected result, with the counts 1, 2, ... and \<open>len(hosts)\<close>. Each of these calls
  writes a line: the label, the bar of 40 blocks, the two counts, and in brackets the
  rendering to one decimal of the number \<open>percentage*100\<close>, followed by the percent sign.
  Along the calls neither that number nor its rendering decreases. The call with
  \<open>current = total\<close> prints the number 100 exactly, rendered \<open>100.0\<close>, and it is the last
  call of a run with at least one worker that has left the collecting loop. Before it
  the number stays below 100, as long as the count of hosts is one that binary64
  holds exactly (up to \<open>2 ^ 53\<close>).
\<close>

theorem progress_percentage:
  assumes r: "run numWorkers hosts sched start = Some s"
  shows "progress s = map (\<lambda>c. (c, length hosts)) [1..<Suc (length (allResults s))]
    \<and> length (allResults s) \<le> length hosts
    \<and> (\<forall>c. 1 \<le> c \<and> c \<le> length (allResults s) \<longrightarrow>
          (\<exists>v f. percent_shown (int c) (int (length hosts)) = Some v \<and> 0 \<le> v
             \<and> 0 \<le> f \<and> f \<le> 40
             \<and> showProgress (int c) (int (length hosts)) =
                 Some ([CHR 0x0D, CHR 0xE6, CHR 0xA3, CHR 0x80, CHR 0xE6, CHR 0xB5, CHR 0x8B,
                        CHR 0xE8, CHR 0xBF, CHR 0x9B, CHR 0xE5, CHR 0xBA, CHR 0xA6]
                       @ '': [''
                       @ concat (replicate (nat f) [CHR 0xE2, CHR 0x96, CHR 0x88])
                       @ concat (replicate (nat (40 - f)) [CHR 0xE2, CHR 0x96, CHR 0x91])
                       @ ''] '' @ Sprintf_d (int c) @ ''/'' @ Sprintf_d (int (length hosts))
                       @ '' ('' @ Sprintf_1f v @ ''%)'')))
    \<and> (\<forall>c c' v v'. 1 \<le> c \<and> c \<le> c' \<and> c' \<le> length (allResults s)
          \<and> percent_shown (int c) (int (length hosts)) = Some v
          \<and> percent_shown (int c') (int (length hosts)) = Some v' \<longrightarrow>
          v \<le> v' \<and> rne (\<bar>v\<bar> * 10) \<le> rne (\<bar>v'\<bar> * 10))
    \<and> (hosts \<noteq> [] \<longrightarrow>
          percent_shown (int (length hosts)) (int (length hosts)) = Some 100
          \<and> Sprintf_1f 100 = ''100.0'')
    \<and> (\<forall>c v. 1 \<le> c \<and> c < length hosts \<and> length hosts \<le> 2 ^ 53
          \<and> percent_shown (int c) (int (length hosts)) = Some v \<longrightarrow> v < 100)
    \<and> (1 \<le> numWorkers \<and> hosts \<noteq> [] \<and> main_pc s = Finished \<longrightarrow>
          length (allResults s) = length hosts
          \<and> progress s \<noteq> [] \<and> last (progress s) = (length hosts, length hosts))"
proof -
  note inv = reachable_inv [OF r]
  let ?n = "length (allResults s)" and ?k = "length hosts"
  let ?v = "\<lambda>c. r64 (r64 (float64 (int c) / float64 (int ?k)) * 100)"
  from inv(3) have p: "progress s = map (\<lambda>c. (c, ?k)) [1..<Suc ?n]"
    by (simp add: log_inv_def)
  from pool_sizes [OF inv(1)] have le: "?n \<le> ?k" by simp
  have line: "\<exists>v f. percent_shown (int c) (int ?k) = Some v \<and> 0 \<le> v
             \<and> 0 \<le> f \<and> f \<le> 40
             \<and> showProgress (int c) (int ?k) =
                 Some ([CHR 0x0D, CHR 0xE6, CHR 0xA3, CHR 0x80, CHR 0xE6, CHR 0xB5, CHR 0x8B,
                        CHR 0xE8, CHR 0xBF, CHR 0x9B, CHR 0xE5, CHR 0xBA, CHR 0xA6]
                       @ '': [''
                       @ concat (replicate (nat f) [CHR 0xE2, CHR 0x96, CHR 0x88])
                       @ concat (replicate (nat (40 - f)) [CHR 0xE2, CHR 0x96, CHR 0x91])
                       @ ''] '' @ Sprintf_d (int c) @ ''/'' @ Sprintf_d (int ?k)
                       @ '' ('' @ Sprintf_1f v @ ''%)'')"
    if c: "1 \<le> c \<and> c \<le> ?n" for c
  proof -
    from c le have ck: "1 \<le> int c" "int c \<le> int ?k" by simp_all
    then have k: "1 \<le> int ?k" by simp
    from shown_pos [OF ck(1) k] have "0 \<le> ?v c" by simp
    with percent_shown_Some [OF k, of "int c"] filled_range [OF ck] showProgress_line [OF ck]
    show ?thesis by blast
  qed
  have mono: "v \<le> v' \<and> rne (\<bar>v\<bar> * 10) \<le> rne (\<bar>v'\<bar> * 10)"
    if h: "1 \<le> c \<and> c \<le> c' \<and> c' \<le> ?n
          \<and> percent_shown (int c) (int ?k) = Some v
          \<and> percent_shown (int c') (int ?k) = Some v'" for c c' v v'
  proof -
    from h le have ck: "1 \<le> int c" "int c \<le> int c'" "1 \<le> int ?k" "1 \<le> int c'" by simp_all
    from h percent_shown_Some [OF ck(3)] have v: "v = ?v c" "v' = ?v c'" by simp_all
    from shown_mono [OF ck(1,2,3)] have m: "?v c \<le> ?v c'" .
    from shown_pos [OF ck(1,3)] shown_pos [OF ck(4,3)] have "0 < ?v c" "0 < ?v c'" .
    with m have "\<bar>?v c\<bar> * 10 \<le> \<bar>?v c'\<bar> * 10" by simp
    from rne_mono [OF this] m v show ?thesis by simp
  qed
  have full: "percent_shown (int ?k) (int ?k) = Some 100 \<and> Sprintf_1f 100 = ''100.0''"
    if "hosts \<noteq> []"
  proof -
    from that have k: "1 \<le> int ?k" by (cases hosts) simp_all
    from percent_shown_Some [OF k, of "int ?k"] shown_full [OF k] Sprintf_1f_100
    show ?thesis by simp
  qed
  have below: "v < 100"
    if h: "1 \<le> c \<and> c < ?k \<and> ?k \<le> 2 ^ 53 \<and> percent_shown (int c) (int ?k) = Some v" for c v
  proof -
    from h have ck: "1 \<le> int c" "int c < int ?k" "1 \<le> int ?k" by simp_all
    from h have "int ?k \<le> 2 ^ 53"
      by (metis of_nat_le_iff of_nat_numeral of_nat_power)
    from shown_below_100 [OF ck(1,2) this] h percent_shown_Some [OF ck(3), of "int c"]
    show ?thesis by simp
  qed
  have fin: "?n = ?k \<and> progress s \<noteq> [] \<and> last (progress s) = (?k, ?k)"
    if "1 \<le> numWorkers \<and> hosts \<noteq> [] \<and> main_pc s = Finished"
  proof -
    from that finished_with_workers [OF inv(1)]
    have "size (mset (map Host (allResults s))) = size (mset hosts)" by simp
    then have "?n = ?k" by simp
    moreover from that have "Suc 0 \<le> ?k" by (cases hosts) simp_all
    ultimately show ?thesis by (simp add: p)
  qed
  from p le line mono full below fin show ?thesis by blast
qed

theorem progress_percentage_witness:
  "run 2 [''mirror-a.example'', ''mirror-b.example'']
     [Main_step, Main_step, Main_step, Main_step, Main_step, Main_step, Main_step,
      Worker_step 0, Worker_step 1, Get_returns 1 (Responded 500 7),
      Worker_step 1, Main_step, Get_returns 0 (Responded 200 5), Worker_step 0,
      Worker_step 0, Worker_step 1, Main_step, Closer_step, Closer_step, Main_step]
     start
   = Some \<lparr>jobs = [], jobs_closed = True, results = [], results_closed = True,
       wg = 0, workers = [Returned, Returned], closer = Some Gone, main_pc = Finished,
       allResults = [check_host ''mirror-b.example'' (Responded 500 7),
                     check_host ''mirror-a.example'' (Responded 200 5)],
       resultCount = 2, progress = [(1, 2), (2, 2)], panicked = False\<rparr>
   \<and> percent_shown 1 2 = Some 50 \<and> percent_shown 2 2 = Some 100
   \<and> (50::rat) \<le> 100 \<and> rne (\<bar>50\<bar> * 10) \<le> rne (\<bar>100\<bar> * 10)
   \<and> Sprintf_1f 50 = ''50.0'' \<and> Sprintf_1f 100 = ''100.0''"
proof -
  let ?final = "\<lparr>jobs = [], jobs_closed = True, results = [], results_closed = True,
       wg = 0, workers = [Returned, Returned], closer = Some Gone, main_pc = Finished,
       allResults = [check_host ''mirror-b.example'' (Responded 500 7),
                     check_host ''mirror-a.example'' (Responded 200 5)],
       resultCount = 2, progress = [(1, 2), (2, 2)], panicked = False\<rparr>"
  have r: "run 2 [''mirror-a.example'', ''mirror-b.example'']
     [Main_step, Main_step, Main_step, Main_step, Main_step, Main_step, Main_step,
      Worker_step 0, Worker_step 1, Get_returns 1 (Responded 500 7),
      Worker_step 1, Main_step, Get_returns 0 (Responded 200 5), Worker_step 0,
      Worker_step 0, Worker_step 1, Main_step, Closer_step, Closer_step, Main_step]
     start = Some ?final"
    by (simp add: exec_def main_step_def worker_step_def get_returns_def closer_step_def
        start_def)
  note t = progress_percentage [OF r]
  from t have full: "percent_shown 2 2 = Some 100" "Sprintf_1f 100 = ''100.0''"
    by simp_all
  from t have "1 \<le> (1::nat) \<and> (1::nat) \<le> 2 \<and> (2::nat) \<le> length (allResults ?final)
          \<and> percent_shown (int 1) (int (length [''mirror-a.example'', ''mirror-b.example'']))
              = Some 50
          \<and> percent_shown (int 2) (int (length [''mirror-a.example'', ''mirror-b.example'']))
              = Some 100 \<longrightarrow>
          (50::rat) \<le> 100 \<and> rne (\<bar>50\<bar> * 10) \<le> rne (\<bar>100\<bar> * 10)"
    by blast
  with full percent_text_halves have "(50::rat) \<le> 100 \<and> rne (\<bar>50\<bar> * 10) \<le> rne (\<bar>100\<bar> * 10)"
    by simp
  with r full percent_text_halves show ?thesis by simp
qed

end
